theory Spec2Isabelle
  imports Complex_Main "HOL-Library.Word" "HOL-Library.Signed_Division"
begin

section \<open>The layout transfer pass of paddle/fluid/framework/ir/transfer\_layout\_pass.cc\<close>

text \<open>
  The pass walks the topologically sorted operators of a graph three times: it collects
  the \<open>fused_conv2d_add_act\<close> operators that can run in NHWC, drops those that share a
  filter with an operator that cannot, and then rewrites the remaining ones, inserting
  \<open>transfer_layout\<close> operators where a value crosses a layout boundary.

  Nodes are addressed by natural numbers (the \<open>ir::Node *\<close> of the source); the graph is a
  store from addresses to nodes together with the number of nodes allocated so far.
  Every \<open>PADDLE_ENFORCE\<close>, \<open>CHECK\<close> and every read that C++ leaves undefined is a value of
  type \<open>error\<close>; a failing run returns the error and the state reached.
\<close>

subsection \<open>Data model\<close>

text \<open>\<open>phi::DataLayout\<close>; the pass uses two enumerators, the others are \<open>kAnyLayout\<close> here.\<close>

datatype DataLayout = kNHWC | kNCHW | kAnyLayout

text \<open>
  Attribute values of an operator descriptor. \<open>LayoutAttr l\<close> is the integer attribute
  written by \<open>SetAttr(..., static_cast<int>(l))\<close>; the numeric values of the enumerators
  are declared in paddle/common/layout.h.
\<close>

datatype Attribute =
    BoolAttr bool
  | IntAttr int
  | FloatAttr real
  | StringAttr string
  | LayoutAttr DataLayout

datatype error =
    PreconditionNotMet   \<comment> \<open>graph should not be nullptr\<close>
  | InvalidArgument      \<comment> \<open>the graph should be main graph\<close>
  | Fatal                \<comment> \<open>scope must not be nullptr\<close>
  | CheckFailed          \<comment> \<open>\<open>CHECK_EQ\<close>, \<open>CHECK_NOTNULL\<close>\<close>
  | EnforceNotMet        \<comment> \<open>\<open>Node::Op()\<close> on a variable, \<open>Node::Var()\<close> on an operator\<close>
  | NotFound             \<comment> \<open>\<open>OpDesc::Input\<close> of a slot the operator does not have\<close>
  | BadVariantAccess     \<comment> \<open>an attribute read at the wrong type\<close>
  | NullDeref            \<comment> \<open>undefined in C++: \<open>FindLocalVar\<close> returned nullptr\<close>
  | OutOfRange           \<comment> \<open>undefined in C++: vector index past the end; \<open>at\<close> of a missing key\<close>
  | EmptyFront           \<comment> \<open>undefined in C++: \<open>front()\<close> of an empty vector\<close>
  | EndIteratorDeref     \<comment> \<open>undefined in C++: \<open>*cbegin()\<close> of an empty vector\<close>

record VarDesc =
  var_name :: string
  var_shape :: "int list"
  var_dtype :: nat
  var_persistable :: bool

record OpDesc =
  op_type :: string
  op_inputs :: "string \<rightharpoonup> string list"
  op_outputs :: "string \<rightharpoonup> string list"
  op_attrs :: "string \<rightharpoonup> Attribute"
  op_block :: "nat option"

datatype NodeBody = Operation OpDesc | Variable VarDesc

record Node =
  name :: string
  body :: NodeBody
  inputs :: "nat list"
  outputs :: "nat list"

record BlockDesc =
  block_vars :: "string \<rightharpoonup> VarDesc"

text \<open>A \<open>phi::DenseTensor\<close>: its dimensions and layout tag (element data is not modelled).\<close>

record DenseTensor =
  dims :: "int list"
  layout :: DataLayout

text \<open>
  Everything the pass reads and writes. \<open>insert_calls\<close> is a history variable: the
  arguments of every call of \<open>InsertLayoutTransOp\<close>, in order. No branch reads it.
\<close>

record Request =
  producer :: nat
  consumer :: nat
  src_layout :: DataLayout
  dst_layout :: DataLayout

definition direction_of :: "Request \<Rightarrow> DataLayout \<times> DataLayout" where
  "direction_of c = (src_layout c, dst_layout c)"

record State =
  nodes :: "nat \<Rightarrow> Node"
  node_count :: nat
  blocks :: "nat \<Rightarrow> BlockDesc"
  tensors :: "string \<rightharpoonup> DenseTensor"
  cache :: "nat \<rightharpoonup> nat"
  vars_shape_nhwc :: "nat set"
  insert_calls :: "Request list"

subsection \<open>Descriptor accessors\<close>

text \<open>
  Modelled from the spec: the descriptor accessors of framework::OpDesc and ir::Node
  (get and set typed attributes by key, the named input lists, renaming an input
  reference, typed accessors that fail on a type mismatch). Their definitions are
  outside this file.
\<close>

definition IsOp :: "Node \<Rightarrow> bool" where
  "IsOp n = (case body n of Operation _ \<Rightarrow> True | Variable _ \<Rightarrow> False)"

definition IsVar :: "Node \<Rightarrow> bool" where
  "IsVar n = (case body n of Operation _ \<Rightarrow> False | Variable _ \<Rightarrow> True)"

definition Op :: "Node \<Rightarrow> error + OpDesc" where
  "Op n = (case body n of Operation d \<Rightarrow> Inr d | Variable _ \<Rightarrow> Inl EnforceNotMet)"

definition Var :: "Node \<Rightarrow> error + VarDesc" where
  "Var n = (case body n of Variable d \<Rightarrow> Inr d | Operation _ \<Rightarrow> Inl EnforceNotMet)"

definition HasAttr :: "OpDesc \<Rightarrow> string \<Rightarrow> bool" where
  "HasAttr d k = (op_attrs d k \<noteq> None)"

definition SetAttr :: "OpDesc \<Rightarrow> string \<Rightarrow> Attribute \<Rightarrow> OpDesc" where
  "SetAttr d k v = d\<lparr>op_attrs := (op_attrs d)(k \<mapsto> v)\<rparr>"

definition GetAttrIfExists_string :: "OpDesc \<Rightarrow> string \<Rightarrow> error + string" where
  "GetAttrIfExists_string d k =
     (case op_attrs d k of
        None \<Rightarrow> Inr []
      | Some (StringAttr s) \<Rightarrow> Inr s
      | Some _ \<Rightarrow> Inl BadVariantAccess)"

definition GetAttrIfExists_bool :: "OpDesc \<Rightarrow> string \<Rightarrow> error + bool" where
  "GetAttrIfExists_bool d k =
     (case op_attrs d k of
        None \<Rightarrow> Inr False
      | Some (BoolAttr b) \<Rightarrow> Inr b
      | Some _ \<Rightarrow> Inl BadVariantAccess)"

definition Input :: "OpDesc \<Rightarrow> string \<Rightarrow> error + string list" where
  "Input d k = (case op_inputs d k of None \<Rightarrow> Inl NotFound | Some vs \<Rightarrow> Inr vs)"

definition RenameInput :: "OpDesc \<Rightarrow> string \<Rightarrow> string \<Rightarrow> OpDesc" where
  "RenameInput d old_name new_name =
     d\<lparr>op_inputs := (\<lambda>k. map_option (map (\<lambda>v. if v = old_name then new_name else v))
                              (op_inputs d k))\<rparr>"

text \<open>
  Modelled from the spec: \<open>IR_NODE_LINK_TO(a, b)\<close> and \<open>IR_NODE_UNLINK(a, b)\<close>, the
  LinkEdge and UnlinkEdge of the graph model. Linking appends \<open>b\<close> to the outputs of \<open>a\<close>
  and \<open>a\<close> to the inputs of \<open>b\<close>; unlinking removes them.
\<close>

definition IR_NODE_LINK_TO :: "nat \<Rightarrow> nat \<Rightarrow> (nat \<Rightarrow> Node) \<Rightarrow> (nat \<Rightarrow> Node)" where
  "IR_NODE_LINK_TO a b ns =
     (let ns1 = ns(a := (ns a)\<lparr>outputs := outputs (ns a) @ [b]\<rparr>)
      in ns1(b := (ns1 b)\<lparr>inputs := inputs (ns1 b) @ [a]\<rparr>))"

definition IR_NODE_UNLINK :: "nat \<Rightarrow> nat \<Rightarrow> (nat \<Rightarrow> Node) \<Rightarrow> (nat \<Rightarrow> Node)" where
  "IR_NODE_UNLINK a b ns =
     (let ns1 = ns(a := (ns a)\<lparr>outputs := removeAll b (outputs (ns a))\<rparr>)
      in ns1(b := (ns1 b)\<lparr>inputs := removeAll a (inputs (ns1 b))\<rparr>))"

text \<open>
  Modelled from the spec: \<open>Graph::CreateOpNode\<close> and \<open>Graph::CreateVarNode\<close>. The new node
  takes the next free address, holds a copy of the descriptor and has no edges; an
  operator node is named after its type, a variable node after its variable.
\<close>

definition CreateOpNode :: "State \<Rightarrow> OpDesc \<Rightarrow> State" where
  "CreateOpNode s d =
     s\<lparr>nodes := (nodes s)(node_count s :=
                   \<lparr>name = op_type d, body = Operation d, inputs = [], outputs = []\<rparr>),
       node_count := Suc (node_count s)\<rparr>"

definition CreateVarNode :: "State \<Rightarrow> VarDesc \<Rightarrow> State" where
  "CreateVarNode s d =
     s\<lparr>nodes := (nodes s)(node_count s :=
                   \<lparr>name = var_name d, body = Variable d, inputs = [], outputs = []\<rparr>),
       node_count := Suc (node_count s)\<rparr>"

text \<open>
  Modelled from the spec: \<open>BlockDesc::Var(name)\<close> finds the variable descriptor of that
  name in the block or creates an empty, non-persistent one.
\<close>

definition BlockVar :: "BlockDesc \<Rightarrow> string \<Rightarrow> VarDesc" where
  "BlockVar blk v =
     (case block_vars blk v of
        Some d \<Rightarrow> d
      | None \<Rightarrow> \<lparr>var_name = v, var_shape = [], var_dtype = 0, var_persistable = False\<rparr>)"

definition set_block_var :: "State \<Rightarrow> nat \<Rightarrow> VarDesc \<Rightarrow> State" where
  "set_block_var s b d =
     s\<lparr>blocks := (blocks s)(b := (blocks s b)\<lparr>block_vars := (block_vars (blocks s b))(var_name d \<mapsto> d)\<rparr>)\<rparr>"

definition set_op_desc :: "State \<Rightarrow> nat \<Rightarrow> OpDesc \<Rightarrow> State" where
  "set_op_desc s n d = s\<lparr>nodes := (nodes s)(n := (nodes s n)\<lparr>body := Operation d\<rparr>)\<rparr>"

definition set_var_desc :: "State \<Rightarrow> nat \<Rightarrow> VarDesc \<Rightarrow> State" where
  "set_var_desc s n d = s\<lparr>nodes := (nodes s)(n := (nodes s n)\<lparr>body := Variable d\<rparr>)\<rparr>"

subsection \<open>Shape permutations\<close>

text \<open>Lines 253-255 and 266-268: \<open>{from_shape[0], from_shape[2], from_shape[3], from_shape[1]}\<close>.\<close>

definition nchw_to_nhwc_shape :: "int list \<Rightarrow> error + int list" where
  "nchw_to_nhwc_shape from_shape =
     (if length from_shape < 4 then Inl OutOfRange
      else Inr [from_shape ! 0, from_shape ! 2, from_shape ! 3, from_shape ! 1])"

text \<open>Lines 61-74: the shape of the output of an inserted \<open>transfer_layout\<close>.\<close>

definition transfer_out_shape :: "DataLayout \<Rightarrow> int list \<Rightarrow> error + int list" where
  "transfer_out_shape from_layout to_shape =
     (if length to_shape < 4 then Inl OutOfRange
      else if from_layout = kNCHW then
        (let n = to_shape ! 0; c = to_shape ! 1; h = to_shape ! 2; w = to_shape ! 3
         in Inr [n, h, w, c])
      else
        (let n = to_shape ! 0; h = to_shape ! 1; w = to_shape ! 2; c = to_shape ! 3
         in Inr [n, c, h, w]))"

text \<open>
  Modelled from the spec: \<open>framework::TransDataLayout\<close>, the conversion of a buffer from
  one layout to the other. It takes a 4-dimensional tensor, permutes its dimensions and
  tags the result with the target layout.
\<close>

definition TransDataLayout :: "DataLayout \<Rightarrow> DataLayout \<Rightarrow> DenseTensor \<Rightarrow> error + DenseTensor" where
  "TransDataLayout from_layout to_layout t =
     (if length (dims t) \<noteq> 4 then Inl EnforceNotMet
      else case transfer_out_shape from_layout (dims t) of
             Inl e \<Rightarrow> Inl e
           | Inr d \<Rightarrow> Inr (t\<lparr>dims := d, layout := to_layout\<rparr>))"

subsection \<open>Eligibility (lines 139-167)\<close>

text \<open>\<open>static_cast<int>\<close> of an \<open>int64_t\<close>: the low 32 bits, read as two's complement.\<close>

definition static_cast_int :: "int \<Rightarrow> int" where
  "static_cast_int x = sint (word_of_int x :: 32 word)"

definition CUDNN_ALIGNMENT :: int where
  "CUDNN_ALIGNMENT = 8"

text \<open>The loop of \<open>cuDNNIsValid\<close> over the filter names; \<open>smod\<close> is the remainder of C++.\<close>

fun cudnn_filters :: "(string \<rightharpoonup> DenseTensor) \<Rightarrow> string list \<Rightarrow> error + bool" where
  "cudnn_filters sc [] = Inr True"
| "cudnn_filters sc (filter_name # rest) =
     (case sc filter_name of
        None \<Rightarrow> Inl NullDeref
      | Some filter_tensor \<Rightarrow>
          if length (dims filter_tensor) \<noteq> 4 then Inl CheckFailed
          else
            (let oc = static_cast_int (dims filter_tensor ! 0);
                 ic = static_cast_int (dims filter_tensor ! 1);
                 cudnn_can_support =
                   (oc smod CUDNN_ALIGNMENT = 0 \<and> ic smod CUDNN_ALIGNMENT = 0)
             in if \<not> cudnn_can_support then Inr False else cudnn_filters sc rest))"

definition cuDNNIsValid :: "(string \<rightharpoonup> DenseTensor) \<Rightarrow> OpDesc \<Rightarrow> error + bool" where
  "cuDNNIsValid sc d =
     (case Input d ''Filter'' of
        Inl e \<Rightarrow> Inl e
      | Inr filter_names \<Rightarrow> cudnn_filters sc filter_names)"

definition CutlassIsValid :: "bool \<Rightarrow> OpDesc \<Rightarrow> error + bool" where
  "CutlassIsValid use_cutlass d =
     (case (if HasAttr d ''use_cudnn'' then GetAttrIfExists_bool d ''use_cudnn'' else Inr True) of
        Inl e \<Rightarrow> Inl e
      | Inr use_cudnn \<Rightarrow> Inr (\<not> use_cudnn \<and> use_cutlass))"

definition target_op_type :: string where
  "target_op_type = ''fused_conv2d_add_act''"

subsection \<open>First loop: candidates and the shared-weight index (lines 169-190)\<close>

fun push_back_all :: "(string \<Rightarrow> nat list) \<Rightarrow> string list \<Rightarrow> nat \<Rightarrow> (string \<Rightarrow> nat list)" where
  "push_back_all ws [] n = ws"
| "push_back_all ws (filter_name # rest) n =
     push_back_all (ws(filter_name := ws filter_name @ [n])) rest n"

fun collect_valid_ops ::
  "bool \<Rightarrow> (nat \<Rightarrow> Node) \<Rightarrow> (string \<rightharpoonup> DenseTensor) \<Rightarrow> nat list \<Rightarrow>
   (string \<Rightarrow> nat list) \<times> nat set \<Rightarrow> error + (string \<Rightarrow> nat list) \<times> nat set" where
  "collect_valid_ops uc ns sc [] acc = Inr acc"
| "collect_valid_ops uc ns sc (op_node # rest) (weights_shared, valid_ops) =
     (case Op (ns op_node) of
        Inl _ \<Rightarrow> Inl CheckFailed
      | Inr d \<Rightarrow>
          if op_type d \<noteq> target_op_type then
            collect_valid_ops uc ns sc rest (weights_shared, valid_ops)
          else
            (case GetAttrIfExists_string d ''data_format'' of
               Inl e \<Rightarrow> Inl e
             | Inr data_format \<Rightarrow>
                 if data_format \<noteq> ''NCHW'' then
                   collect_valid_ops uc ns sc rest (weights_shared, valid_ops)
                 else
                   (case Input d ''Filter'' of
                      Inl e \<Rightarrow> Inl e
                    | Inr filter_names \<Rightarrow>
                        (let ws' = push_back_all weights_shared filter_names op_node in
                         case cuDNNIsValid sc d of
                           Inl e \<Rightarrow> Inl e
                         | Inr True \<Rightarrow>
                             collect_valid_ops uc ns sc rest (ws', insert op_node valid_ops)
                         | Inr False \<Rightarrow>
                             (case CutlassIsValid uc d of
                                Inl e \<Rightarrow> Inl e
                              | Inr c \<Rightarrow>
                                  collect_valid_ops uc ns sc rest
                                    (ws', if c then insert op_node valid_ops else valid_ops))))))"

subsection \<open>Second loop: operators sharing a weight (lines 193-209)\<close>

fun erase_shared :: "(string \<Rightarrow> nat list) \<Rightarrow> string list \<Rightarrow> nat set \<Rightarrow> nat set" where
  "erase_shared weights_shared [] valid_ops = valid_ops"
| "erase_shared weights_shared (filter_name # rest) valid_ops =
     erase_shared weights_shared rest
       (if list_ex (\<lambda>node. node \<notin> valid_ops) (weights_shared filter_name)
        then valid_ops - set (weights_shared filter_name)
        else valid_ops)"

fun filter_shared ::
  "(nat \<Rightarrow> Node) \<Rightarrow> (string \<Rightarrow> nat list) \<Rightarrow> nat list \<Rightarrow> nat set \<Rightarrow> error + nat set" where
  "filter_shared ns weights_shared [] valid_ops = Inr valid_ops"
| "filter_shared ns weights_shared (op_node # rest) valid_ops =
     (case Op (ns op_node) of
        Inl _ \<Rightarrow> Inl CheckFailed
      | Inr d \<Rightarrow>
          if op_node \<in> valid_ops then
            (case Input d ''Filter'' of
               Inl e \<Rightarrow> Inl e
             | Inr filter_names \<Rightarrow>
                 filter_shared ns weights_shared rest
                   (erase_shared weights_shared filter_names valid_ops))
          else filter_shared ns weights_shared rest valid_ops)"

subsection \<open>Inserting a transfer\_layout operator (lines 33-99)\<close>

text \<open>The \<open>update_op_desc\<close> lambda applied to a fresh descriptor of the block.\<close>

definition update_op_desc :: "DataLayout \<Rightarrow> DataLayout \<Rightarrow> nat \<Rightarrow> string \<Rightarrow> string \<Rightarrow> OpDesc" where
  "update_op_desc from_layout to_layout b x_name out_name =
     \<lparr>op_type = ''transfer_layout'',
      op_inputs = [''X'' \<mapsto> [x_name]],
      op_outputs = [''Out'' \<mapsto> [out_name]],
      op_attrs = [''src_layout'' \<mapsto> LayoutAttr from_layout,
                  ''dst_layout'' \<mapsto> LayoutAttr to_layout],
      op_block = Some b\<rparr>"

text \<open>Lines 54-78, taken when the cache has no entry for \<open>prev_node\<close>.\<close>

definition create_transfer ::
  "State \<Rightarrow> nat \<Rightarrow> DataLayout \<Rightarrow> DataLayout \<Rightarrow> nat \<Rightarrow> string \<Rightarrow> string \<Rightarrow>
   (error \<times> State) + State" where
  "create_transfer s prev_node from_layout to_layout b in_var_name out_var_name =
     (let op_node = node_count s;
          s1 = CreateOpNode s (update_op_desc from_layout to_layout b in_var_name out_var_name);
          d1 = (BlockVar (blocks s1 b) out_var_name)\<lparr>var_name := out_var_name, var_persistable := False\<rparr>;
          s2 = set_block_var s1 b d1
      in case Var (nodes s2 prev_node) of
           Inl e \<Rightarrow> Inl (e, s2)
         | Inr pv \<Rightarrow>
             (let d2 = d1\<lparr>var_dtype := var_dtype pv\<rparr>;
                  s3 = set_block_var s2 b d2
              in case transfer_out_shape from_layout (var_shape pv) of
                   Inl e \<Rightarrow> Inl (e, s3)
                 | Inr sh \<Rightarrow>
                     (let d3 = d2\<lparr>var_shape := sh\<rparr>;
                          s4 = set_block_var s3 b d3;
                          op_out_var_node = node_count s4;
                          s5 = CreateVarNode s4 d3;
                          s6 = s5\<lparr>nodes := IR_NODE_LINK_TO op_node op_out_var_node (nodes s5)\<rparr>
                      in Inr (s6\<lparr>cache := (cache s6)(prev_node \<mapsto> op_out_var_node)\<rparr>))))"

text \<open>Lines 80-85: the consumer is renamed and rewired to the cached output.\<close>

definition rewire :: "State \<Rightarrow> nat \<Rightarrow> nat \<Rightarrow> (error \<times> State) + State" where
  "rewire s prev_node next_node =
     (case Op (nodes s next_node) of
        Inl e \<Rightarrow> Inl (e, s)
      | Inr d \<Rightarrow>
          (case cache s prev_node of
             None \<Rightarrow> Inl (OutOfRange, s)
           | Some cached \<Rightarrow>
               (let s1 = set_op_desc s next_node
                           (RenameInput d (name (nodes s prev_node)) (name (nodes s cached)))
                in case inputs (nodes s1 cached) of
                     [] \<Rightarrow> Inl (EmptyFront, s1)
                   | front # _ \<Rightarrow>
                       Inr (s1\<lparr>nodes :=
                              IR_NODE_UNLINK prev_node next_node
                                (IR_NODE_LINK_TO cached next_node
                                  (IR_NODE_LINK_TO prev_node front (nodes s1)))\<rparr>))))"

definition do_insert ::
  "State \<Rightarrow> nat \<Rightarrow> nat \<Rightarrow> DataLayout \<Rightarrow> DataLayout \<Rightarrow> nat option \<Rightarrow> string \<Rightarrow> string \<Rightarrow>
   (error \<times> State) + State" where
  "do_insert s prev_node next_node from_layout to_layout block_desc in_var_name out_var_name =
     (case block_desc of
        None \<Rightarrow> Inl (CheckFailed, s)
      | Some b \<Rightarrow>
          (case (if cache s prev_node = None
                 then create_transfer s prev_node from_layout to_layout b in_var_name out_var_name
                 else Inr s) of
             Inl e \<Rightarrow> Inl e
           | Inr s1 \<Rightarrow> rewire s1 prev_node next_node))"

definition InsertLayoutTransOp ::
  "State \<Rightarrow> nat \<Rightarrow> nat \<Rightarrow> DataLayout \<Rightarrow> DataLayout \<Rightarrow> nat option \<Rightarrow> (error \<times> State) + State" where
  "InsertLayoutTransOp s0 prev_node next_node from_layout to_layout block_desc =
     (let s = s0\<lparr>insert_calls := insert_calls s0 @ [\<lparr>producer = prev_node, consumer = next_node, src_layout = from_layout, dst_layout = to_layout\<rparr>]\<rparr>
      in if from_layout = kNCHW \<and> to_layout = kNHWC then
           (case Var (nodes s prev_node) of
              Inl e \<Rightarrow> Inl (e, s)
            | Inr pv \<Rightarrow>
                do_insert s prev_node next_node from_layout to_layout block_desc
                  (var_name pv) (var_name pv @ ''_nchw_to_nhwc''))
         else if from_layout = kNHWC \<and> to_layout = kNCHW then
           (case Var (nodes s prev_node) of
              Inl e \<Rightarrow> Inl (e, s)
            | Inr pv \<Rightarrow>
                do_insert s prev_node next_node from_layout to_layout block_desc
                  (var_name pv) (var_name pv @ ''_nhwc_to_nchw''))
         else Inr s)"

subsection \<open>Third loop: committing the layout (lines 212-304)\<close>

text \<open>Lines 218-228: the attributes of a valid operator.\<close>

definition commit_attrs :: "bool \<Rightarrow> (string \<rightharpoonup> DenseTensor) \<Rightarrow> OpDesc \<Rightarrow> error + OpDesc" where
  "commit_attrs uc sc d =
     (case CutlassIsValid uc d of
        Inl e \<Rightarrow> Inl e
      | Inr True \<Rightarrow>
          Inr (SetAttr (if \<not> HasAttr d ''fuse_alpha'' then SetAttr d ''fuse_alpha'' (FloatAttr 0) else d)
                 ''data_format'' (StringAttr ''NHWC''))
      | Inr False \<Rightarrow>
          (case cuDNNIsValid sc d of
             Inl e \<Rightarrow> Inl e
           | Inr c \<Rightarrow>
               Inr (SetAttr (if c \<and> HasAttr d ''use_cudnn'' then SetAttr d ''use_cudnn'' (BoolAttr True) else d)
                      ''data_format'' (StringAttr ''NHWC''))))"

text \<open>Lines 248-257: the declared shape of the persistent inputs named like the filter.\<close>

fun permute_filter_vars :: "State \<Rightarrow> string \<Rightarrow> nat list \<Rightarrow> (error \<times> State) + State" where
  "permute_filter_vars s filter_name [] = Inr s"
| "permute_filter_vars s filter_name (in_var_node # rest) =
     (case Var (nodes s in_var_node) of
        Inl _ \<Rightarrow> Inl (CheckFailed, s)
      | Inr vd \<Rightarrow>
          if var_persistable vd \<and> var_name vd = filter_name then
            (case nchw_to_nhwc_shape (var_shape vd) of
               Inl e \<Rightarrow> Inl (e, s)
             | Inr sh \<Rightarrow>
                 permute_filter_vars (set_var_desc s in_var_node (vd\<lparr>var_shape := sh\<rparr>))
                   filter_name rest)
          else permute_filter_vars s filter_name rest)"

text \<open>Lines 233-258: the weights of a valid operator.\<close>

fun transfer_weights :: "State \<Rightarrow> nat \<Rightarrow> string list \<Rightarrow> (error \<times> State) + State" where
  "transfer_weights s op_node [] = Inr s"
| "transfer_weights s op_node (filter_name # rest) =
     (case tensors s filter_name of
        None \<Rightarrow> Inl (NullDeref, s)
      | Some filter_tensor \<Rightarrow>
          if layout filter_tensor = kNHWC then transfer_weights s op_node rest
          else
            (case TransDataLayout kNCHW kNHWC filter_tensor of
               Inl e \<Rightarrow> Inl (e, s)
             | Inr temp_tensor \<Rightarrow>
                 (let s1 = s\<lparr>tensors := (tensors s)(filter_name \<mapsto> temp_tensor)\<rparr>
                  in case permute_filter_vars s1 filter_name (inputs (nodes s1 op_node)) of
                       Inl e \<Rightarrow> Inl e
                     | Inr s2 \<Rightarrow> transfer_weights s2 op_node rest)))"

text \<open>Lines 261-270: the outputs of a valid operator.\<close>

fun transfer_outputs :: "State \<Rightarrow> nat list \<Rightarrow> (error \<times> State) + State" where
  "transfer_outputs s [] = Inr s"
| "transfer_outputs s (out_var_node # rest) =
     (case Var (nodes s out_var_node) of
        Inl _ \<Rightarrow> Inl (CheckFailed, s)
      | Inr vd \<Rightarrow>
          if var_persistable vd then transfer_outputs s rest
          else
            (case nchw_to_nhwc_shape (var_shape vd) of
               Inl e \<Rightarrow> Inl (e, s)
             | Inr sh \<Rightarrow>
                 transfer_outputs
                   ((set_var_desc s out_var_node (vd\<lparr>var_shape := sh\<rparr>))
                      \<lparr>vars_shape_nhwc := insert out_var_node (vars_shape_nhwc s)\<rparr>)
                   rest))"

text \<open>Lines 273-287: the intermediate inputs of a valid operator.\<close>

fun transfer_inputs :: "State \<Rightarrow> nat \<Rightarrow> nat option \<Rightarrow> nat list \<Rightarrow> (error \<times> State) + State" where
  "transfer_inputs s op_node block_desc [] = Inr s"
| "transfer_inputs s op_node block_desc (in_var_node # rest) =
     (case Var (nodes s in_var_node) of
        Inl _ \<Rightarrow> Inl (CheckFailed, s)
      | Inr vd \<Rightarrow>
          if var_persistable vd then transfer_inputs s op_node block_desc rest
          else if in_var_node \<in> vars_shape_nhwc s then transfer_inputs s op_node block_desc rest
          else
            (case InsertLayoutTransOp s in_var_node op_node kNCHW kNHWC block_desc of
               Inl e \<Rightarrow> Inl e
             | Inr s1 \<Rightarrow> transfer_inputs s1 op_node block_desc rest))"

text \<open>Lines 289-302: the inputs of an operator that stays in NCHW.\<close>

fun restore_inputs :: "State \<Rightarrow> nat \<Rightarrow> nat option \<Rightarrow> nat list \<Rightarrow> (error \<times> State) + State" where
  "restore_inputs s op_node block_desc [] = Inr s"
| "restore_inputs s op_node block_desc (in_var_node # rest) =
     (if \<not> IsVar (nodes s in_var_node) then Inl (CheckFailed, s)
      else if in_var_node \<in> vars_shape_nhwc s then
        (case InsertLayoutTransOp s in_var_node op_node kNHWC kNCHW block_desc of
           Inl e \<Rightarrow> Inl e
         | Inr s1 \<Rightarrow> restore_inputs s1 op_node block_desc rest)
      else restore_inputs s op_node block_desc rest)"

text \<open>The body of the third loop for one operator.\<close>

definition commit_op ::
  "bool \<Rightarrow> nat set \<Rightarrow> nat option \<Rightarrow> State \<Rightarrow> nat \<Rightarrow> (error \<times> State) + State" where
  "commit_op uc valid_ops block_desc s op_node =
     (case Op (nodes s op_node) of
        Inl _ \<Rightarrow> Inl (CheckFailed, s)
      | Inr d \<Rightarrow>
          if op_node \<in> valid_ops then
            (case commit_attrs uc (tensors s) d of
               Inl e \<Rightarrow> Inl (e, s)
             | Inr d' \<Rightarrow>
                 (let s1 = set_op_desc s op_node d' in
                  case Input d' ''Filter'' of
                    Inl e \<Rightarrow> Inl (e, s1)
                  | Inr filter_names \<Rightarrow>
                      (case transfer_weights s1 op_node filter_names of
                         Inl e \<Rightarrow> Inl e
                       | Inr s2 \<Rightarrow>
                           (case transfer_outputs s2 (outputs (nodes s2 op_node)) of
                              Inl e \<Rightarrow> Inl e
                            | Inr s3 \<Rightarrow>
                                transfer_inputs s3 op_node block_desc (inputs (nodes s3 op_node))))))
          else restore_inputs s op_node block_desc (inputs (nodes s op_node)))"

fun commit_loop ::
  "bool \<Rightarrow> nat set \<Rightarrow> nat option \<Rightarrow> State \<Rightarrow> nat list \<Rightarrow> (error \<times> State) + State" where
  "commit_loop uc valid_ops block_desc s [] = Inr s"
| "commit_loop uc valid_ops block_desc s (op_node # rest) =
     (case commit_op uc valid_ops block_desc s op_node of
        Inl e \<Rightarrow> Inl e
      | Inr s1 \<Rightarrow> commit_loop uc valid_ops block_desc s1 rest)"

subsection \<open>The pass (lines 103-306)\<close>

text \<open>
  The graph the pass is given: its nodes, whether it is the main graph, and the block
  descriptors its operators point to. \<open>Scope\<close> holds the tensors of the parameter scope.
\<close>

record Graph =
  graph_nodes :: "nat \<Rightarrow> Node"
  graph_size :: nat
  IsMainGraph :: bool
  graph_blocks :: "nat \<Rightarrow> BlockDesc"

type_synonym Scope = "string \<rightharpoonup> DenseTensor"

definition init_state :: "Graph \<Rightarrow> Scope \<Rightarrow> State" where
  "init_state g sc =
     \<lparr>nodes = graph_nodes g, node_count = graph_size g, blocks = graph_blocks g,
      tensors = sc, cache = Map.empty, vars_shape_nhwc = {}, insert_calls = []\<rparr>"

definition graph_of :: "Graph \<Rightarrow> State \<Rightarrow> Graph" where
  "graph_of g s =
     g\<lparr>graph_nodes := nodes s, graph_size := node_count s, graph_blocks := blocks s\<rparr>"

text \<open>
  The outcome of a run: the graph and the scope as the run leaves them (\<open>None\<close> is the
  null pointer), with the error that stopped it or the count given to \<open>AddStatis\<close>.
\<close>

datatype outcome =
    Raised error "Graph option" "Scope option"
  | Finished nat Graph Scope State

text \<open>The first two loops: the operators that are valid once shared weights are settled.\<close>

definition final_valid_ops ::
  "bool \<Rightarrow> (nat \<Rightarrow> Node) \<Rightarrow> Scope \<Rightarrow> nat list \<Rightarrow> error + nat set" where
  "final_valid_ops use_cutlass ns sc op_nodes =
     (case collect_valid_ops use_cutlass ns sc op_nodes (\<lambda>_. [], {}) of
        Inl e \<Rightarrow> Inl e
      | Inr (weights_shared, candidates) \<Rightarrow> filter_shared ns weights_shared op_nodes candidates)"

text \<open>
  \<open>TopologySortOperations\<close> is a parameter: it is defined in graph\_helper.cc. The scope is
  what \<open>param_scope()\<close> returns, \<open>use_cutlass\<close> the attribute of the pass.
\<close>

definition ApplyImpl ::
  "bool \<Rightarrow> (Graph \<Rightarrow> nat list) \<Rightarrow> Graph option \<Rightarrow> Scope option \<Rightarrow> outcome" where
  "ApplyImpl use_cutlass TopologySortOperations graph scope =
     (case graph of
        None \<Rightarrow> Raised PreconditionNotMet graph scope
      | Some g \<Rightarrow>
          if \<not> IsMainGraph g then Raised InvalidArgument graph scope
          else
            (case scope of
               None \<Rightarrow> Raised Fatal graph scope
             | Some sc \<Rightarrow>
                 (let op_nodes = TopologySortOperations g in
                  case op_nodes of
                    [] \<Rightarrow> Raised EndIteratorDeref graph scope
                  | first # _ \<Rightarrow>
                      (case Op (graph_nodes g first) of
                         Inl e \<Rightarrow> Raised e graph scope
                       | Inr first_desc \<Rightarrow>
                           (let block_desc = op_block first_desc in
                            case final_valid_ops use_cutlass (graph_nodes g) sc op_nodes of
                              Inl e \<Rightarrow> Raised e graph scope
                            | Inr valid_ops \<Rightarrow>
                                (case commit_loop use_cutlass valid_ops block_desc
                                        (init_state g sc) op_nodes of
                                   Inl (e, s) \<Rightarrow> Raised e (Some (graph_of g s)) (Some (tensors s))
                                 | Inr s \<Rightarrow>
                                     Finished (card valid_ops) (graph_of g s) (tensors s) s))))))"

subsection \<open>Eligibility as the specification words it\<close>

text \<open>
  P1: every Filter input has a tensor in the scope whose output and input channels are
  both divisible by 8. P2: \<open>use_cudnn\<close> is present and false, and the pass runs with
  \<open>use_cutlass\<close>.
\<close>

definition P1 :: "Scope \<Rightarrow> OpDesc \<Rightarrow> bool" where
  "P1 sc d =
     (case op_inputs d ''Filter'' of
        None \<Rightarrow> False
      | Some filter_names \<Rightarrow>
          list_all (\<lambda>f. case sc f of
                          None \<Rightarrow> False
                        | Some t \<Rightarrow> 8 dvd dims t ! 0 \<and> 8 dvd dims t ! 1) filter_names)"

definition P2 :: "bool \<Rightarrow> OpDesc \<Rightarrow> bool" where
  "P2 use_cutlass d = (op_attrs d ''use_cudnn'' = Some (BoolAttr False) \<and> use_cutlass)"

definition eligible :: "bool \<Rightarrow> (nat \<Rightarrow> Node) \<Rightarrow> Scope \<Rightarrow> nat \<Rightarrow> bool" where
  "eligible use_cutlass ns sc n =
     (case body (ns n) of
        Variable _ \<Rightarrow> False
      | Operation d \<Rightarrow>
          op_type d = ''fused_conv2d_add_act'' \<and>
          op_attrs d ''data_format'' = Some (StringAttr ''NCHW'') \<and>
          (P1 sc d \<or> P2 use_cutlass d))"

subsection \<open>Example graphs\<close>

text \<open>A \<open>fused_conv2d_add_act\<close> descriptor with the given filters and attributes.\<close>

definition conv_desc :: "string list \<Rightarrow> (string \<rightharpoonup> Attribute) \<Rightarrow> OpDesc" where
  "conv_desc filter_names attrs =
     \<lparr>op_type = ''fused_conv2d_add_act'',
      op_inputs = [''Input'' \<mapsto> [''x''], ''Filter'' \<mapsto> filter_names],
      op_outputs = [''Output'' \<mapsto> [''y'']],
      op_attrs = attrs,
      op_block = Some 0\<rparr>"

definition op_node_of :: "OpDesc \<Rightarrow> nat list \<Rightarrow> nat list \<Rightarrow> Node" where
  "op_node_of d ins outs = \<lparr>name = op_type d, body = Operation d, inputs = ins, outputs = outs\<rparr>"

definition var_node_of :: "string \<Rightarrow> int list \<Rightarrow> bool \<Rightarrow> nat list \<Rightarrow> nat list \<Rightarrow> Node" where
  "var_node_of v sh p ins outs =
     \<lparr>name = v,
      body = Variable \<lparr>var_name = v, var_shape = sh, var_dtype = 5, var_persistable = p\<rparr>,
      inputs = ins, outputs = outs\<rparr>"

definition nchw_attrs :: "string \<rightharpoonup> Attribute" where
  "nchw_attrs = [''data_format'' \<mapsto> StringAttr ''NCHW'']"

definition weight16 :: DenseTensor where
  "weight16 = \<lparr>dims = [16, 16, 3, 3], layout = kNCHW\<rparr>"

text \<open>One convolution (node 0) reading the activation 1 and the weight 2, writing 3.\<close>

definition one_conv :: "nat \<Rightarrow> Node" where
  "one_conv =
     (\<lambda>_. var_node_of ''unused'' [] False [] [])
       (0 := op_node_of (conv_desc [''w''] nchw_attrs) [1, 2] [3],
        1 := var_node_of ''x'' [1, 16, 32, 32] False [] [0],
        2 := var_node_of ''w'' [16, 16, 3, 3] True [] [0],
        3 := var_node_of ''y'' [1, 16, 32, 32] False [0] [])"

definition one_conv_graph :: "bool \<Rightarrow> Graph" where
  "one_conv_graph is_main =
     \<lparr>graph_nodes = one_conv, graph_size = 4, IsMainGraph = is_main,
      graph_blocks = (\<lambda>_. \<lparr>block_vars = Map.empty\<rparr>)\<rparr>"

subsection \<open>Vocabulary for the effect of an insertion\<close>

text \<open>The two nodes an insertion creates, and the node store after the consumer is rewired.\<close>

definition transfer_op_node :: "DataLayout \<Rightarrow> DataLayout \<Rightarrow> nat \<Rightarrow> string \<Rightarrow> string \<Rightarrow> nat \<Rightarrow> Node" where
  "transfer_op_node f t b x out v =
     \<lparr>name = ''transfer_layout'', body = Operation (update_op_desc f t b x out),
      inputs = [], outputs = [v]\<rparr>"

definition transfer_var_node :: "string \<Rightarrow> VarDesc \<Rightarrow> nat \<Rightarrow> Node" where
  "transfer_var_node out vd c = \<lparr>name = out, body = Variable vd, inputs = [c], outputs = []\<rparr>"

definition renamed_node :: "Node \<Rightarrow> OpDesc \<Rightarrow> string \<Rightarrow> string \<Rightarrow> Node" where
  "renamed_node n d old_name new_name = n\<lparr>body := Operation (RenameInput d old_name new_name)\<rparr>"

definition suffix_of :: "DataLayout \<Rightarrow> string" where
  "suffix_of from_layout = (if from_layout = kNCHW then ''_nchw_to_nhwc'' else ''_nhwc_to_nchw'')"

definition direction :: "DataLayout \<Rightarrow> DataLayout \<Rightarrow> bool" where
  "direction f t = ((f = kNCHW \<and> t = kNHWC) \<or> (f = kNHWC \<and> t = kNCHW))"

definition rewired ::
  "(nat \<Rightarrow> Node) \<Rightarrow> nat \<Rightarrow> nat \<Rightarrow> nat \<Rightarrow> nat \<Rightarrow> OpDesc \<Rightarrow> (nat \<Rightarrow> Node)" where
  "rewired ns prev front cv nxt d =
     IR_NODE_UNLINK prev nxt
       (IR_NODE_LINK_TO cv nxt
         (IR_NODE_LINK_TO prev front
           (ns(nxt := renamed_node (ns nxt) d (name (ns prev)) (name (ns cv))))))"

text \<open>Conversion insertion invoked once per consumer of one producer, in order.\<close>

fun insert_for_consumers ::
  "State \<Rightarrow> nat \<Rightarrow> nat list \<Rightarrow> DataLayout \<Rightarrow> DataLayout \<Rightarrow> nat option \<Rightarrow> (error \<times> State) + State" where
  "insert_for_consumers s prev_node [] from_layout to_layout block_desc = Inr s"
| "insert_for_consumers s prev_node (next_node # rest) from_layout to_layout block_desc =
     (case InsertLayoutTransOp s prev_node next_node from_layout to_layout block_desc of
        Inl e \<Rightarrow> Inl e
      | Inr s1 \<Rightarrow> insert_for_consumers s1 prev_node rest from_layout to_layout block_desc)"

text \<open>Two convolutions (nodes 0 and 4) reading the same activation 1.\<close>

definition two_consumers :: State where
  "two_consumers =
     \<lparr>nodes = (\<lambda>_. var_node_of ''unused'' [] False [] [])
        (0 := op_node_of (conv_desc [''w''] nchw_attrs) [1, 2] [3],
         1 := var_node_of ''x'' [1, 16, 32, 32] False [] [0, 4],
         2 := var_node_of ''w'' [16, 16, 3, 3] True [] [0],
         3 := var_node_of ''y'' [1, 16, 32, 32] False [0] [],
         4 := op_node_of (conv_desc [''v''] nchw_attrs) [1, 5] [6],
         5 := var_node_of ''v'' [16, 16, 3, 3] True [] [4],
         6 := var_node_of ''z'' [1, 16, 32, 32] False [4] []),
      node_count = 7,
      blocks = (\<lambda>_. \<lparr>block_vars = Map.empty\<rparr>),
      tensors = [''w'' \<mapsto> weight16, ''v'' \<mapsto> weight16],
      cache = Map.empty,
      vars_shape_nhwc = {},
      insert_calls = []\<rparr>"

subsection \<open>Vocabulary for the frame of a step\<close>

text \<open>
  \<open>same_edges s s'\<close>: the step from \<open>s\<close> to \<open>s'\<close> creates no node, leaves the cache, the
  call history, every edge and every operator descriptor alone, and keeps variables
  variables. \<open>cache_ok n0 s\<close>: every cached output is a variable created by the pass
  (its address is at least \<open>n0\<close>) whose inputs are operators created by the pass.
\<close>

definition same_edges :: "State \<Rightarrow> State \<Rightarrow> bool" where
  "same_edges s s' =
     (node_count s' = node_count s \<and> cache s' = cache s \<and> insert_calls s' = insert_calls s \<and>
      (\<forall>m. name (nodes s' m) = name (nodes s m) \<and>
           inputs (nodes s' m) = inputs (nodes s m) \<and>
           outputs (nodes s' m) = outputs (nodes s m) \<and>
           Op (nodes s' m) = Op (nodes s m)))"

definition cache_ok :: "nat \<Rightarrow> State \<Rightarrow> bool" where
  "cache_ok n0 s =
     (n0 \<le> node_count s \<and>
      (\<forall>p v. cache s p = Some v \<longrightarrow>
         n0 \<le> v \<and> v < node_count s \<and> IsVar (nodes s v) \<and>
         (\<forall>x \<in> set (inputs (nodes s v)). n0 \<le> x \<and> x < node_count s \<and> IsOp (nodes s x))))"

definition attrs_at :: "State \<Rightarrow> nat \<Rightarrow> (string \<rightharpoonup> Attribute) option" where
  "attrs_at s m =
     (case body (nodes s m) of Operation d \<Rightarrow> Some (op_attrs d) | Variable _ \<Rightarrow> None)"

subsection \<open>Reading the outcome of a run\<close>

definition shape_at :: "outcome \<Rightarrow> nat \<Rightarrow> int list option" where
  "shape_at r m =
     (case r of
        Finished _ g _ _ \<Rightarrow>
          (case body (graph_nodes g m) of Variable vd \<Rightarrow> Some (var_shape vd) | Operation _ \<Rightarrow> None)
      | Raised _ _ _ \<Rightarrow> None)"

definition tensor_at :: "outcome \<Rightarrow> string \<Rightarrow> DenseTensor option" where
  "tensor_at r v = (case r of Finished _ _ sc _ \<Rightarrow> sc v | Raised _ _ _ \<Rightarrow> None)"

definition attr_at :: "outcome \<Rightarrow> nat \<Rightarrow> string \<Rightarrow> Attribute option" where
  "attr_at r m k =
     (case r of
        Finished _ g _ _ \<Rightarrow>
          (case body (graph_nodes g m) of Operation d \<Rightarrow> op_attrs d k | Variable _ \<Rightarrow> None)
      | Raised _ _ _ \<Rightarrow> None)"

subsection \<open>More example graphs\<close>

text \<open>
  Two convolutions in sequence, both reading the weight \<open>w\<close>, each through a variable
  node of its own (2 and 5); and one convolution that asks for the alternate kernel.
\<close>

definition weight_scope :: Scope where
  "weight_scope = [''w'' \<mapsto> weight16]"

definition shared_weight_nodes :: "nat \<Rightarrow> Node" where
  "shared_weight_nodes =
     (\<lambda>_. var_node_of ''unused'' [] False [] [])
       (0 := op_node_of (conv_desc [''w''] nchw_attrs) [1, 2] [3],
        1 := var_node_of ''x'' [1, 16, 32, 32] False [] [0],
        2 := var_node_of ''w'' [16, 16, 3, 3] True [] [0],
        3 := var_node_of ''y'' [1, 16, 32, 32] False [0] [4],
        4 := op_node_of (conv_desc [''w''] nchw_attrs) [3, 5] [6],
        5 := var_node_of ''w'' [16, 16, 3, 3] True [] [4],
        6 := var_node_of ''z'' [1, 16, 32, 32] False [4] [])"

definition shared_weight_graph :: Graph where
  "shared_weight_graph =
     \<lparr>graph_nodes = shared_weight_nodes, graph_size = 7, IsMainGraph = True,
      graph_blocks = (\<lambda>_. \<lparr>block_vars = Map.empty\<rparr>)\<rparr>"

definition shared_weight_order :: "Graph \<Rightarrow> nat list" where
  "shared_weight_order g = [0, 4]"

definition cutlass_desc :: OpDesc where
  "cutlass_desc = conv_desc [''w''] (nchw_attrs(''use_cudnn'' \<mapsto> BoolAttr False))"

definition cutlass_graph :: Graph where
  "cutlass_graph =
     \<lparr>graph_nodes = one_conv(0 := op_node_of cutlass_desc [1, 2] [3]),
      graph_size = 4, IsMainGraph = True,
      graph_blocks = (\<lambda>_. \<lparr>block_vars = Map.empty\<rparr>)\<rparr>"

definition single_order :: "Graph \<Rightarrow> nat list" where
  "single_order g = [0]"

text \<open>
  Three convolutions: node 0 reads the filter \<open>f1\<close>, node 1 reads \<open>f1\<close> and \<open>f2\<close> and asks
  for the alternate kernel, node 2 reads \<open>f2\<close>, whose output channels are not aligned.
\<close>

definition chain_nodes :: "nat \<Rightarrow> Node" where
  "chain_nodes =
     (\<lambda>_. var_node_of ''unused'' [] False [] [])
       (0 := op_node_of (conv_desc [''f1''] nchw_attrs) [3, 4] [5],
        1 := op_node_of (conv_desc [''f1'', ''f2''] (nchw_attrs(''use_cudnn'' \<mapsto> BoolAttr False)))
               [3, 4, 6] [7],
        2 := op_node_of (conv_desc [''f2''] nchw_attrs) [3, 6] [8],
        3 := var_node_of ''x'' [1, 16, 32, 32] False [] [0, 1, 2],
        4 := var_node_of ''f1'' [16, 16, 3, 3] True [] [0, 1],
        5 := var_node_of ''y0'' [1, 16, 32, 32] False [0] [],
        6 := var_node_of ''f2'' [15, 16, 3, 3] True [] [1, 2],
        7 := var_node_of ''y1'' [1, 15, 32, 32] False [1] [],
        8 := var_node_of ''y2'' [1, 15, 32, 32] False [2] [])"

definition chain_graph :: Graph where
  "chain_graph =
     \<lparr>graph_nodes = chain_nodes, graph_size = 9, IsMainGraph = True,
      graph_blocks = (\<lambda>_. \<lparr>block_vars = Map.empty\<rparr>)\<rparr>"

definition chain_scope :: Scope where
  "chain_scope = [''f1'' \<mapsto> weight16, ''f2'' \<mapsto> \<lparr>dims = [15, 16, 3, 3], layout = kNCHW\<rparr>]"

definition chain_order :: "Graph \<Rightarrow> nat list" where
  "chain_order g = [0, 1, 2]"

definition no_weights_shared :: "string \<Rightarrow> nat list" where
  "no_weights_shared = (\<lambda>_. [])"

definition chain_weights_shared :: "string \<Rightarrow> nat list" where
  "chain_weights_shared = no_weights_shared(''f1'' := [0, 1], ''f2'' := [1, 2])"

text \<open>
  The property the second loop is for: of the operators reading a filter, either all
  are valid or none is.
\<close>

definition group_consistent :: "(string \<Rightarrow> nat list) \<Rightarrow> nat set \<Rightarrow> string \<Rightarrow> bool" where
  "group_consistent weights_shared valid_ops filter_name =
     (list_all (\<lambda>n. n \<in> valid_ops) (weights_shared filter_name) \<or>
      list_all (\<lambda>n. n \<notin> valid_ops) (weights_shared filter_name))"

subsection \<open>The order of the operators\<close>

text \<open>
  What the pass relies on from \<open>TopologySortOperations\<close>: the list holds distinct operator
  nodes of the graph, their inputs are nodes of the graph, and no operator writes a
  variable that an operator earlier in the list reads. \<open>request_ok valid nhwc c\<close>: the
  call \<open>c\<close> of conversion insertion asks for NHWC to NCHW, for a consumer outside
  \<open>valid\<close>, if its producer is recorded in \<open>nhwc\<close>; and for NCHW to NHWC, for a consumer
  in \<open>valid\<close>, if it is not.
\<close>

fun reads_before_writes :: "(nat \<Rightarrow> Node) \<Rightarrow> nat list \<Rightarrow> bool" where
  "reads_before_writes ns [] = True"
| "reads_before_writes ns (m # rest) =
     ((\<forall>m' \<in> set rest. set (inputs (ns m)) \<inter> set (outputs (ns m')) = {}) \<and>
      reads_before_writes ns rest)"

definition topological_order :: "(nat \<Rightarrow> Node) \<Rightarrow> nat \<Rightarrow> nat list \<Rightarrow> bool" where
  "topological_order ns n0 ops =
     (distinct ops \<and>
      (\<forall>m \<in> set ops. m < n0 \<and> IsOp (ns m) \<and> (\<forall>v \<in> set (inputs (ns m)). v < n0)) \<and>
      reads_before_writes ns ops)"

definition request_ok :: "nat set \<Rightarrow> nat set \<Rightarrow> Request \<Rightarrow> bool" where
  "request_ok valid nhwc c =
     (if producer c \<in> nhwc
      then src_layout c = kNHWC \<and> dst_layout c = kNCHW \<and> consumer c \<notin> valid
      else src_layout c = kNCHW \<and> dst_layout c = kNHWC \<and> consumer c \<in> valid)"

text \<open>A convolution (node 0) followed by an operator of another type (node 4).\<close>

definition relu_desc :: OpDesc where
  "relu_desc =
     \<lparr>op_type = ''relu'', op_inputs = [''X'' \<mapsto> [''y'']], op_outputs = [''Out'' \<mapsto> [''z'']],
      op_attrs = Map.empty, op_block = Some 0\<rparr>"

definition conv_relu_graph :: Graph where
  "conv_relu_graph =
     \<lparr>graph_nodes = one_conv
        (3 := var_node_of ''y'' [1, 16, 32, 32] False [0] [4],
         4 := op_node_of relu_desc [3] [5],
         5 := var_node_of ''z'' [1, 16, 32, 32] False [4] []),
      graph_size = 6, IsMainGraph = True,
      graph_blocks = (\<lambda>_. \<lparr>block_vars = Map.empty\<rparr>)\<rparr>"

definition conv_relu_order :: "Graph \<Rightarrow> nat list" where
  "conv_relu_order g = [0, 4]"

section \<open>Properties\<close>

subsection \<open>Alignment arithmetic\<close>

lemma smod_8_iff: "(k::int) smod 8 = 0 \<longleftrightarrow> 8 dvd k"
proof -
  have "k smod 8 = sgn k * (\<bar>k\<bar> mod 8)"
    by (simp add: signed_modulo_int_def)
  moreover have "(\<bar>k\<bar> mod 8 = 0) = (8 dvd k)"
    by (simp add: dvd_eq_mod_eq_0 [symmetric])
  ultimately show ?thesis
    by (cases "k = 0") (simp_all add: sgn_if)
qed

lemma dvd_signed_take_bit_31: "(8::int) dvd signed_take_bit 31 x \<longleftrightarrow> 8 dvd x"
proof -
  have "signed_take_bit 31 x = (x + 2 ^ 31) mod 2 ^ 32 - 2 ^ 31"
    by (simp add: signed_take_bit_eq_take_bit_shift take_bit_eq_mod)
  also have "\<dots> = x - 2 ^ 32 * ((x + 2 ^ 31) div 2 ^ 32)"
    by (simp add: minus_div_mult_eq_mod [symmetric])
  finally have e: "signed_take_bit 31 x = x - 8 * (2 ^ 29 * ((x + 2 ^ 31) div 2 ^ 32))"
    by simp
  show ?thesis
    unfolding e by (simp add: dvd_diff_left_iff del: mult_numeral_left_semiring_numeral)
qed

text \<open>Truncating a dimension to \<open>int\<close> and taking the C++ remainder tests divisibility by 8.\<close>

lemma aligned_iff: "static_cast_int x smod CUDNN_ALIGNMENT = 0 \<longleftrightarrow> 8 dvd x"
  by (simp add: static_cast_int_def CUDNN_ALIGNMENT_def smod_8_iff sint_sbintrunc'
      dvd_signed_take_bit_31)

subsection \<open>The first loop computes the eligible operators\<close>

lemma cudnn_filters_iff:
  "cudnn_filters sc fs = Inr b \<Longrightarrow>
   b = list_all (\<lambda>f. case sc f of None \<Rightarrow> False
                     | Some t \<Rightarrow> 8 dvd dims t ! 0 \<and> 8 dvd dims t ! 1) fs"
  by (induction fs) (auto simp: aligned_iff Let_def split: option.splits if_splits)

lemma cuDNNIsValid_P1: "cuDNNIsValid sc d = Inr b \<Longrightarrow> b = P1 sc d"
  by (auto simp: cuDNNIsValid_def P1_def Input_def dest: cudnn_filters_iff split: option.splits)

lemma CutlassIsValid_P2: "CutlassIsValid uc d = Inr b \<Longrightarrow> b = P2 uc d"
  by (auto simp: CutlassIsValid_def P2_def HasAttr_def GetAttrIfExists_bool_def
      split: option.splits Attribute.splits if_splits sum.splits)

lemma data_format_iff:
  "GetAttrIfExists_string d ''data_format'' = Inr s \<Longrightarrow>
   (s = ''NCHW'') = (op_attrs d ''data_format'' = Some (StringAttr ''NCHW''))"
  by (auto simp: GetAttrIfExists_string_def split: option.splits Attribute.splits)

lemma collect_valid_ops_set:
  "collect_valid_ops uc ns sc ops (ws, valid) = Inr (ws', valid') \<Longrightarrow>
   valid' = valid \<union> {n \<in> set ops. eligible uc ns sc n}"
proof (induction ops arbitrary: ws valid)
  case Nil
  then show ?case by simp
next
  case (Cons n ops)
  from Cons.prems obtain d where d: "body (ns n) = Operation d"
    by (auto simp: Op_def split: NodeBody.splits)
  show ?case
  proof (cases "op_type d = target_op_type")
    case False
    with Cons d show ?thesis
      by (auto simp: Op_def eligible_def target_op_type_def)
  next
    case t: True
    from Cons.prems d t obtain fmt where fmt: "GetAttrIfExists_string d ''data_format'' = Inr fmt"
      by (auto simp: Op_def split: sum.splits)
    show ?thesis
    proof (cases "fmt = ''NCHW''")
      case False
      with Cons.prems d t fmt have "collect_valid_ops uc ns sc ops (ws, valid) = Inr (ws', valid')"
        by (simp add: Op_def)
      from Cons.IH [OF this] False data_format_iff [OF fmt] d show ?thesis
        by (auto simp: eligible_def)
    next
      case f: True
      from Cons.prems d t fmt f obtain fs where fs: "Input d ''Filter'' = Inr fs"
        by (auto simp: Op_def split: sum.splits)
      from Cons.prems d t fmt f fs obtain c1 where c1: "cuDNNIsValid sc d = Inr c1"
        by (auto simp: Op_def Let_def split: sum.splits)
      have el: "eligible uc ns sc n = (P1 sc d \<or> P2 uc d)"
        using d t f data_format_iff [OF fmt] by (simp add: eligible_def target_op_type_def)
      show ?thesis
      proof (cases c1)
        case True
        with Cons.prems d t fmt f fs c1
        have "collect_valid_ops uc ns sc ops (push_back_all ws fs n, insert n valid) = Inr (ws', valid')"
          by (simp add: Op_def Let_def)
        from Cons.IH [OF this] el cuDNNIsValid_P1 [OF c1] True show ?thesis
          by auto
      next
        case False
        with Cons.prems d t fmt f fs c1 obtain c2 where c2: "CutlassIsValid uc d = Inr c2"
          by (auto simp: Op_def Let_def split: sum.splits)
        with Cons.prems d t fmt f fs c1 False
        have "collect_valid_ops uc ns sc ops
                (push_back_all ws fs n, if c2 then insert n valid else valid) = Inr (ws', valid')"
          by (simp add: Op_def Let_def)
        from Cons.IH [OF this] el cuDNNIsValid_P1 [OF c1] CutlassIsValid_P2 [OF c2] False show ?thesis
          by auto
      qed
    qed
  qed
qed

text \<open>
  Claim C1. When the first loop over the operator list completes, an operator node is in
  the candidate set (before the shared-weight filter) if and only if it is one of the
  listed operators, its type is \<open>fused_conv2d_add_act\<close>, its \<open>data_format\<close> attribute is
  \<open>"NCHW"\<close>, and P1 holds (every Filter tensor has dimensions 0 and 1 divisible by 8) or
  P2 holds (\<open>use_cudnn\<close> is present and false and \<open>use_cutlass\<close> is set).
\<close>

theorem candidate_iff_eligible:
  "collect_valid_ops uc ns sc ops (\<lambda>_. [], {}) = Inr (ws, valid) \<Longrightarrow>
   n \<in> valid \<longleftrightarrow> n \<in> set ops \<and> eligible uc ns sc n"
  using collect_valid_ops_set [of uc ns sc ops "\<lambda>_. []" "{}" ws valid] by auto

lemma one_conv_collect:
  "collect_valid_ops False one_conv [''w'' \<mapsto> weight16] [0] (\<lambda>_. [], {})
     = Inr ((\<lambda>_. [])(''w'' := [0]), {0})"
  by (simp add: one_conv_def op_node_of_def conv_desc_def nchw_attrs_def weight16_def Op_def
      target_op_type_def GetAttrIfExists_string_def Input_def cuDNNIsValid_def aligned_iff)

theorem candidate_iff_eligible_witness:
  "collect_valid_ops False one_conv [''w'' \<mapsto> weight16] [0] (\<lambda>_. [], {})
     = Inr ((\<lambda>_. [])(''w'' := [0]), {0}) \<and>
   eligible False one_conv [''w'' \<mapsto> weight16] 0"
  using candidate_iff_eligible [OF one_conv_collect, of 0] one_conv_collect by simp

subsection \<open>Shape permutations\<close>

text \<open>
  Claim C6. The two permutations of \<open>InsertLayoutTransOp\<close> are mutual inverses: a shape
  \<open>[N, C, H, W]\<close> taken from NCHW to NHWC becomes \<open>[N, H, W, C]\<close>, and taking that back
  from NHWC to NCHW gives \<open>[N, C, H, W]\<close> again (for all dimensions, in particular for
  those that are at least 1).
\<close>

theorem shape_round_trip:
  "transfer_out_shape kNCHW [N, C, H, W] = Inr [N, H, W, C] \<and>
   transfer_out_shape kNHWC [N, H, W, C] = Inr [N, C, H, W]"
  by (simp add: transfer_out_shape_def)

subsection \<open>Preconditions\<close>

text \<open>
  Claim C7. When the graph pointer is null, the graph is not the main graph, or the
  parameter scope is null, the pass raises an error (PreconditionNotMet, InvalidArgument
  or Fatal) and the graph with its block descriptors and the scope with its tensors are
  exactly what they were: the checks come before any node is visited.
\<close>

theorem precondition_violation_unmutated:
  "graph = None \<or> (\<exists>g. graph = Some g \<and> \<not> IsMainGraph g) \<or> scope = None \<Longrightarrow>
   \<exists>e. ApplyImpl uc topo graph scope = Raised e graph scope \<and>
       (e = PreconditionNotMet \<or> e = InvalidArgument \<or> e = Fatal)"
  by (auto simp: ApplyImpl_def split: option.splits)

theorem precondition_violation_unmutated_witness:
  "\<not> IsMainGraph (one_conv_graph False) \<and>
   ApplyImpl True (\<lambda>_. [0]) (Some (one_conv_graph False)) (Some [''w'' \<mapsto> weight16])
     = Raised InvalidArgument (Some (one_conv_graph False)) (Some [''w'' \<mapsto> weight16])"
proof -
  have h: "\<not> IsMainGraph (one_conv_graph False)"
    by (simp add: one_conv_graph_def)
  from precondition_violation_unmutated
    [of "Some (one_conv_graph False)" "Some [''w'' \<mapsto> weight16]" True "\<lambda>_. [0]"] h
  show ?thesis
    by (auto simp: ApplyImpl_def)
qed

text \<open>
  Claim C10. The block descriptor is read from the first element of the sorted operator
  list with no check that the list is non-empty. For a main graph with a scope whose
  operator list is empty the run reaches that read, which C++ leaves undefined; it is
  not reported as one of the three precondition errors, and nothing has been changed.
\<close>

theorem empty_op_list_unchecked:
  "IsMainGraph g \<Longrightarrow> topo g = [] \<Longrightarrow>
   ApplyImpl uc topo (Some g) (Some sc) = Raised EndIteratorDeref (Some g) (Some sc) \<and>
   EndIteratorDeref \<notin> {PreconditionNotMet, InvalidArgument, Fatal}"
  by (simp add: ApplyImpl_def)

theorem empty_op_list_unchecked_witness:
  "IsMainGraph (one_conv_graph True) \<and>
   ApplyImpl False (\<lambda>_. []) (Some (one_conv_graph True)) (Some Map.empty)
     = Raised EndIteratorDeref (Some (one_conv_graph True)) (Some Map.empty)"
proof -
  have h: "IsMainGraph (one_conv_graph True)"
    by (simp add: one_conv_graph_def)
  from empty_op_list_unchecked [OF h, of "\<lambda>_. []" False Map.empty] h
  show ?thesis by simp
qed

subsection \<open>Edges and the effect of one insertion\<close>

lemma link_body [simp]: "body (IR_NODE_LINK_TO a b ns m) = body (ns m)"
  by (simp add: IR_NODE_LINK_TO_def Let_def)

lemma link_name [simp]: "name (IR_NODE_LINK_TO a b ns m) = name (ns m)"
  by (simp add: IR_NODE_LINK_TO_def Let_def)

lemma link_outputs:
  "outputs (IR_NODE_LINK_TO a b ns m) = (if m = a then outputs (ns m) @ [b] else outputs (ns m))"
  by (simp add: IR_NODE_LINK_TO_def Let_def)

lemma link_inputs:
  "inputs (IR_NODE_LINK_TO a b ns m) = (if m = b then inputs (ns m) @ [a] else inputs (ns m))"
  by (simp add: IR_NODE_LINK_TO_def Let_def)

lemma unlink_body [simp]: "body (IR_NODE_UNLINK a b ns m) = body (ns m)"
  by (simp add: IR_NODE_UNLINK_def Let_def)

lemma unlink_name [simp]: "name (IR_NODE_UNLINK a b ns m) = name (ns m)"
  by (simp add: IR_NODE_UNLINK_def Let_def)

lemma unlink_outputs:
  "outputs (IR_NODE_UNLINK a b ns m) =
     (if m = a then removeAll b (outputs (ns m)) else outputs (ns m))"
  by (simp add: IR_NODE_UNLINK_def Let_def)

lemma unlink_inputs:
  "inputs (IR_NODE_UNLINK a b ns m) =
     (if m = b then removeAll a (inputs (ns m)) else inputs (ns m))"
  by (simp add: IR_NODE_UNLINK_def Let_def)

lemma link_other: "m \<noteq> a \<Longrightarrow> m \<noteq> b \<Longrightarrow> IR_NODE_LINK_TO a b ns m = ns m"
  by (simp add: IR_NODE_LINK_TO_def Let_def)

lemma unlink_other: "m \<noteq> a \<Longrightarrow> m \<noteq> b \<Longrightarrow> IR_NODE_UNLINK a b ns m = ns m"
  by (simp add: IR_NODE_UNLINK_def Let_def)


lemma create_transfer_result:
  assumes "create_transfer s prev f t b x out = Inr s'"
  shows "node_count s' = Suc (Suc (node_count s))"
    and "cache s' = (cache s)(prev \<mapsto> Suc (node_count s))"
    and "tensors s' = tensors s"
    and "vars_shape_nhwc s' = vars_shape_nhwc s"
    and "insert_calls s' = insert_calls s"
    and "\<exists>vd. var_name vd = out \<and> \<not> var_persistable vd \<and>
           nodes s' = (nodes s)
             (node_count s := transfer_op_node f t b x out (Suc (node_count s)),
              Suc (node_count s) :=
                \<lparr>name = out, body = Variable vd, inputs = [node_count s], outputs = []\<rparr>)"
  using assms
  by (auto simp: create_transfer_def Let_def CreateOpNode_def CreateVarNode_def set_block_var_def
      IR_NODE_LINK_TO_def transfer_op_node_def update_op_desc_def fun_eq_iff
      split: sum.splits)


lemma rewire_result:
  assumes "rewire s prev nxt = Inr s'"
  shows "\<exists>d cv front rest.
           Op (nodes s nxt) = Inr d \<and> cache s prev = Some cv \<and>
           inputs (nodes s cv) = front # rest \<and>
           nodes s' =
             IR_NODE_UNLINK prev nxt
               (IR_NODE_LINK_TO cv nxt
                 (IR_NODE_LINK_TO prev front
                   ((nodes s)(nxt := renamed_node (nodes s nxt) d
                                       (name (nodes s prev)) (name (nodes s cv))))))"
    and "node_count s' = node_count s"
    and "cache s' = cache s"
    and "tensors s' = tensors s"
    and "vars_shape_nhwc s' = vars_shape_nhwc s"
    and "insert_calls s' = insert_calls s"
  using assms
  by (auto simp: rewire_def Let_def set_op_desc_def renamed_node_def
      split: sum.splits option.splits list.splits if_splits)

lemma insert_decompose:
  assumes "InsertLayoutTransOp s prev nxt f t bd = Inr s'" and "direction f t"
  shows "\<exists>pv b s1.
           Var (nodes s prev) = Inr pv \<and> bd = Some b \<and>
           (if cache s prev = None
            then create_transfer (s\<lparr>insert_calls := insert_calls s @ [\<lparr>producer = prev, consumer = nxt, src_layout = f, dst_layout = t\<rparr>]\<rparr>)
                   prev f t b (var_name pv) (var_name pv @ suffix_of f) = Inr s1
            else s1 = s\<lparr>insert_calls := insert_calls s @ [\<lparr>producer = prev, consumer = nxt, src_layout = f, dst_layout = t\<rparr>]\<rparr>) \<and>
           rewire s1 prev nxt = Inr s'"
  using assms
  by (auto simp: InsertLayoutTransOp_def Let_def do_insert_def direction_def suffix_of_def
      split: sum.splits option.splits if_splits)

lemma insert_no_direction:
  "\<not> direction f t \<Longrightarrow>
   InsertLayoutTransOp s prev nxt f t bd = Inr (s\<lparr>insert_calls := insert_calls s @ [\<lparr>producer = prev, consumer = nxt, src_layout = f, dst_layout = t\<rparr>]\<rparr>)"
  by (auto simp: InsertLayoutTransOp_def Let_def direction_def)


lemma rewired_name [simp]: "name (rewired ns prev front cv nxt d m) = name (ns m)"
  by (simp add: rewired_def renamed_node_def)

lemma rewired_body:
  "body (rewired ns prev front cv nxt d m) =
     (if m = nxt then Operation (RenameInput d (name (ns prev)) (name (ns cv))) else body (ns m))"
  by (simp add: rewired_def renamed_node_def)

lemma rewired_inputs:
  "front \<noteq> nxt \<Longrightarrow>
   inputs (rewired ns prev front cv nxt d m) =
     (if m = nxt then removeAll prev (inputs (ns nxt) @ [cv])
      else if m = front then inputs (ns front) @ [prev]
      else inputs (ns m))"
  by (simp add: rewired_def renamed_node_def unlink_inputs link_inputs)

lemma rewired_outputs:
  "prev \<noteq> cv \<Longrightarrow>
   outputs (rewired ns prev front cv nxt d m) =
     (if m = prev then removeAll nxt (outputs (ns prev) @ [front])
      else if m = cv then outputs (ns cv) @ [nxt]
      else outputs (ns m))"
  by (simp add: rewired_def renamed_node_def unlink_outputs link_outputs)

lemma Var_not_Op: "Var n = Inr vd \<Longrightarrow> Op n = Inr d \<Longrightarrow> False"
  by (auto simp: Var_def Op_def split: NodeBody.splits)

lemma insert_hit:
  assumes "InsertLayoutTransOp s prev nxt f t bd = Inr s'" and "direction f t"
    and "cache s prev = Some cv"
  shows "\<exists>d pv front rest.
           Op (nodes s nxt) = Inr d \<and> Var (nodes s prev) = Inr pv \<and>
           inputs (nodes s cv) = front # rest \<and>
           nodes s' = rewired (nodes s) prev front cv nxt d"
    and "node_count s' = node_count s"
    and "cache s' = cache s"
    and "tensors s' = tensors s"
    and "vars_shape_nhwc s' = vars_shape_nhwc s"
    and "insert_calls s' = insert_calls s @ [\<lparr>producer = prev, consumer = nxt, src_layout = f, dst_layout = t\<rparr>]"
proof -
  from insert_decompose [OF assms(1,2)] assms(3) obtain pv b
    where pv: "Var (nodes s prev) = Inr pv"
      and rw: "rewire (s\<lparr>insert_calls := insert_calls s @ [\<lparr>producer = prev, consumer = nxt, src_layout = f, dst_layout = t\<rparr>]\<rparr>) prev nxt = Inr s'"
    by auto
  from rewire_result(1) [OF rw] assms(3) pv
  show "\<exists>d pv front rest.
           Op (nodes s nxt) = Inr d \<and> Var (nodes s prev) = Inr pv \<and>
           inputs (nodes s cv) = front # rest \<and>
           nodes s' = rewired (nodes s) prev front cv nxt d"
    by (auto simp: rewired_def)
  from rewire_result(2-6) [OF rw]
  show "node_count s' = node_count s" "cache s' = cache s" "tensors s' = tensors s"
    "vars_shape_nhwc s' = vars_shape_nhwc s" "insert_calls s' = insert_calls s @ [\<lparr>producer = prev, consumer = nxt, src_layout = f, dst_layout = t\<rparr>]"
    by simp_all
qed

lemma RenameInput_idem:
  "RenameInput (RenameInput d old_name new_name) old_name new_name = RenameInput d old_name new_name"
proof -
  have "(\<lambda>x. if (if x = old_name then new_name else x) = old_name then new_name
             else if x = old_name then new_name else x)
        = (\<lambda>v. if v = old_name then new_name else v)"
    by (rule ext) auto
  then show ?thesis
    by (simp add: RenameInput_def option.map_comp comp_def)
qed

lemma count_list_removeAll: "x \<noteq> y \<Longrightarrow> count_list (removeAll y xs) x = count_list xs x"
  by (induction xs) auto

lemma hit_fold:
  assumes "insert_for_consumers s prev cs f t bd = Inr s'" and "direction f t"
    and "cache s prev = Some cv" and "inputs (nodes s cv) = [front]"
    and "prev \<noteq> cv" and "prev \<noteq> front" and "front \<noteq> cv"
    and "front \<notin> set cs" and "cv \<notin> set cs"
  shows "node_count s' = node_count s \<and> cache s' = cache s \<and>
         inputs (nodes s' front) = inputs (nodes s front) @ replicate (length cs) prev \<and>
         outputs (nodes s' cv) = outputs (nodes s cv) @ cs \<and>
         inputs (nodes s' cv) = [front] \<and>
         count_list (outputs (nodes s' prev)) front
           = count_list (outputs (nodes s prev)) front + length cs \<and>
         (\<forall>m. name (nodes s' m) = name (nodes s m)) \<and>
         (\<forall>m. m \<notin> set cs \<longrightarrow> body (nodes s' m) = body (nodes s m)) \<and>
         (\<forall>c \<in> set cs. \<exists>d. Op (nodes s c) = Inr d \<and>
            Op (nodes s' c) = Inr (RenameInput d (name (nodes s prev)) (name (nodes s cv))))"
  using assms
proof (induction cs arbitrary: s)
  case Nil
  then show ?case by simp
next
  case (Cons c cs)
  from Cons.prems(1) obtain s1
    where s1: "InsertLayoutTransOp s prev c f t bd = Inr s1"
      and rest: "insert_for_consumers s1 prev cs f t bd = Inr s'"
    by (auto split: sum.splits)
  from insert_hit(1) [OF s1 Cons.prems(2,3)] Cons.prems(4) obtain d pv
    where d: "Op (nodes s c) = Inr d" and pv: "Var (nodes s prev) = Inr pv"
      and ns1: "nodes s1 = rewired (nodes s) prev front cv c d"
    by auto
  note eqs = insert_hit(2,3) [OF s1 Cons.prems(2,3)]
  from Cons.prems have neq: "front \<noteq> c" "cv \<noteq> c" "front \<notin> set cs" "cv \<notin> set cs"
    by auto
  from d pv have pc: "prev \<noteq> c"
    by (auto dest: Var_not_Op)
  have i1: "inputs (nodes s1 cv) = [front]"
    using Cons.prems(4,5,6,7) neq by (simp add: ns1 rewired_inputs)
  have c1: "cache s1 prev = Some cv"
    using eqs Cons.prems(3) by simp
  note IH = Cons.IH [OF rest Cons.prems(2) c1 i1 Cons.prems(5,6,7) neq(3,4)]
  have front1: "inputs (nodes s1 front) = inputs (nodes s front) @ [prev]"
    using neq Cons.prems(5,6,7) by (simp add: ns1 rewired_inputs)
  have out1: "outputs (nodes s1 cv) = outputs (nodes s cv) @ [c]"
    using neq Cons.prems(5,6,7) by (simp add: ns1 rewired_outputs)
  have cnt1: "count_list (outputs (nodes s1 prev)) front = Suc (count_list (outputs (nodes s prev)) front)"
    using neq Cons.prems(5,6,7) by (simp add: ns1 rewired_outputs count_list_removeAll)
  have names: "\<And>m. name (nodes s1 m) = name (nodes s m)"
    by (simp add: ns1)
  have bodies: "\<And>m. m \<noteq> c \<Longrightarrow> body (nodes s1 m) = body (nodes s m)"
    by (simp add: ns1 rewired_body)
  have bc: "Op (nodes s1 c) = Inr (RenameInput d (name (nodes s prev)) (name (nodes s cv)))"
    by (simp add: ns1 rewired_body Op_def)
  have "\<exists>d. Op (nodes s x) = Inr d \<and>
            Op (nodes s' x) = Inr (RenameInput d (name (nodes s prev)) (name (nodes s cv)))"
    if x: "x \<in> set (c # cs)" for x
  proof (cases "x \<in> set cs")
    case True
    with IH obtain d1 where d1: "Op (nodes s1 x) = Inr d1"
      and d1': "Op (nodes s' x) = Inr (RenameInput d1 (name (nodes s1 prev)) (name (nodes s1 cv)))"
      by blast
    show ?thesis
    proof (cases "x = c")
      case True
      with d1 bc have "d1 = RenameInput d (name (nodes s prev)) (name (nodes s cv))"
        by simp
      with d1' True d show ?thesis
        by (simp add: names RenameInput_idem)
    next
      case False
      with d1 bodies [of x] have "Op (nodes s x) = Inr d1"
        by (simp add: Op_def)
      with d1' show ?thesis
        by (simp add: names)
    qed
  next
    case False
    with x have xc: "x = c" by simp
    from False IH have "body (nodes s' x) = body (nodes s1 x)" by blast
    with bc xc d show ?thesis
      by (simp add: Op_def)
  qed
  moreover have "\<forall>m. m \<notin> set (c # cs) \<longrightarrow> body (nodes s' m) = body (nodes s m)"
    using IH bodies by auto
  moreover have "\<forall>m. name (nodes s' m) = name (nodes s m)"
    using IH names by auto
  ultimately show ?case
    using IH eqs front1 out1 cnt1 by (simp add: replicate_append_same)
qed


lemma insert_miss:
  assumes "InsertLayoutTransOp s prev nxt f t bd = Inr s'" and "direction f t"
    and "cache s prev = None"
  shows "\<exists>d pv vd b.
           Var (nodes s prev) = Inr pv \<and> bd = Some b \<and>
           var_name vd = var_name pv @ suffix_of f \<and> \<not> var_persistable vd \<and>
           Op (((nodes s)
               (node_count s :=
                  transfer_op_node f t b (var_name pv) (var_name pv @ suffix_of f) (Suc (node_count s)),
                Suc (node_count s) :=
                  transfer_var_node (var_name pv @ suffix_of f) vd (node_count s))) nxt) = Inr d \<and>
           nodes s' =
             rewired ((nodes s)
               (node_count s :=
                  transfer_op_node f t b (var_name pv) (var_name pv @ suffix_of f) (Suc (node_count s)),
                Suc (node_count s) :=
                  transfer_var_node (var_name pv @ suffix_of f) vd (node_count s)))
               prev (node_count s) (Suc (node_count s)) nxt d"
    and "node_count s' = Suc (Suc (node_count s))"
    and "cache s' = (cache s)(prev \<mapsto> Suc (node_count s))"
    and "tensors s' = tensors s"
    and "vars_shape_nhwc s' = vars_shape_nhwc s"
    and "insert_calls s' = insert_calls s @ [\<lparr>producer = prev, consumer = nxt, src_layout = f, dst_layout = t\<rparr>]"
proof -
  let ?s0 = "s\<lparr>insert_calls := insert_calls s @ [\<lparr>producer = prev, consumer = nxt, src_layout = f, dst_layout = t\<rparr>]\<rparr>"
  from insert_decompose [OF assms(1,2)] assms(3) obtain pv b s1
    where pv: "Var (nodes s prev) = Inr pv" and b: "bd = Some b"
      and cr: "create_transfer ?s0 prev f t b (var_name pv) (var_name pv @ suffix_of f) = Inr s1"
      and rw: "rewire s1 prev nxt = Inr s'"
    by auto
  note c = create_transfer_result [OF cr]
  from c(6) obtain vd where vd: "var_name vd = var_name pv @ suffix_of f" "\<not> var_persistable vd"
    and ns1: "nodes s1 = (nodes s)
               (node_count s :=
                  transfer_op_node f t b (var_name pv) (var_name pv @ suffix_of f) (Suc (node_count s)),
                Suc (node_count s) :=
                  transfer_var_node (var_name pv @ suffix_of f) vd (node_count s))"
    by (auto simp: transfer_var_node_def)
  from rewire_result(1) [OF rw] obtain d cv front rest
    where d: "Op (nodes s1 nxt) = Inr d" and cv: "cache s1 prev = Some cv"
      and fr: "inputs (nodes s1 cv) = front # rest"
      and ns': "nodes s' = rewired (nodes s1) prev front cv nxt d"
    by (auto simp: rewired_def)
  from cv c(2) have cv': "cv = Suc (node_count s)" by simp
  with fr ns1 have fr': "front = node_count s"
    by (simp add: transfer_var_node_def)
  from pv b vd d ns' cv' fr' ns1
  show "\<exists>d pv vd b.
           Var (nodes s prev) = Inr pv \<and> bd = Some b \<and>
           var_name vd = var_name pv @ suffix_of f \<and> \<not> var_persistable vd \<and>
           Op (((nodes s)
               (node_count s :=
                  transfer_op_node f t b (var_name pv) (var_name pv @ suffix_of f) (Suc (node_count s)),
                Suc (node_count s) :=
                  transfer_var_node (var_name pv @ suffix_of f) vd (node_count s))) nxt) = Inr d \<and>
           nodes s' =
             rewired ((nodes s)
               (node_count s :=
                  transfer_op_node f t b (var_name pv) (var_name pv @ suffix_of f) (Suc (node_count s)),
                Suc (node_count s) :=
                  transfer_var_node (var_name pv @ suffix_of f) vd (node_count s)))
               prev (node_count s) (Suc (node_count s)) nxt d"
    by (intro exI [of _ d] exI [of _ pv] exI [of _ vd] exI [of _ b]) simp
  from rewire_result(2-6) [OF rw] c(1-5)
  show "node_count s' = Suc (Suc (node_count s))"
    "cache s' = (cache s)(prev \<mapsto> Suc (node_count s))" "tensors s' = tensors s"
    "vars_shape_nhwc s' = vars_shape_nhwc s" "insert_calls s' = insert_calls s @ [\<lparr>producer = prev, consumer = nxt, src_layout = f, dst_layout = t\<rparr>]"
    by simp_all
qed

lemma consumers_fold:
  assumes run: "insert_for_consumers s prev (c # cs) f t bd = Inr s'" and dir: "direction f t"
    and miss: "cache s prev = None"
    and prev: "prev < node_count s" and cons: "\<forall>x \<in> set (c # cs). x < node_count s"
  shows "node_count s' = node_count s + 2"
    and "cache s' = (cache s)(prev \<mapsto> Suc (node_count s))"
    and "\<exists>d. Op (nodes s' (node_count s)) = Inr d \<and> op_type d = ''transfer_layout''"
    and "\<exists>pv vd. Var (nodes s prev) = Inr pv \<and> Var (nodes s' (Suc (node_count s))) = Inr vd \<and>
           var_name vd = var_name pv @ suffix_of f \<and>
           name (nodes s' (Suc (node_count s))) = var_name pv @ suffix_of f"
    and "\<forall>x \<in> set (c # cs). \<exists>d. Op (nodes s x) = Inr d \<and>
           Op (nodes s' x) =
             Inr (RenameInput d (name (nodes s prev)) (name (nodes s' (Suc (node_count s)))))"
    and "inputs (nodes s' (node_count s)) = replicate (length (c # cs)) prev"
    and "outputs (nodes s' (Suc (node_count s))) = c # cs"
    and "count_list (outputs (nodes s' prev)) (node_count s)
           = count_list (outputs (nodes s prev)) (node_count s) + length (c # cs)"
    and "inputs (nodes s' (Suc (node_count s))) = [node_count s]"
proof -
  let ?n = "node_count s"
  from run obtain s1
    where s1: "InsertLayoutTransOp s prev c f t bd = Inr s1"
      and rest: "insert_for_consumers s1 prev cs f t bd = Inr s'"
    by (auto split: sum.splits)
  from cons have c: "c < ?n" and cs: "?n \<notin> set cs" "Suc ?n \<notin> set cs"
    by auto
  from insert_miss(1) [OF s1 dir miss] c obtain d pv vd b
    where pv: "Var (nodes s prev) = Inr pv" and vd: "var_name vd = var_name pv @ suffix_of f"
      and d: "Op (nodes s c) = Inr d"
      and ns1: "nodes s1 =
             rewired ((nodes s)
               (?n := transfer_op_node f t b (var_name pv) (var_name pv @ suffix_of f) (Suc ?n),
                Suc ?n := transfer_var_node (var_name pv @ suffix_of f) vd ?n))
               prev ?n (Suc ?n) c d"
    by auto
  note m = insert_miss(2,3) [OF s1 dir miss]
  have c1: "cache s1 prev = Some (Suc ?n)"
    by (simp add: m)
  have i1: "inputs (nodes s1 (Suc ?n)) = [?n]"
    using c prev by (simp add: ns1 rewired_inputs transfer_var_node_def)
  have neq: "prev \<noteq> Suc ?n" "prev \<noteq> ?n" "?n \<noteq> Suc ?n"
    using prev by auto
  note h = hit_fold [OF rest dir c1 i1 neq cs]
  have names1: "name (nodes s1 m) =
      (if m = ?n then ''transfer_layout'' else if m = Suc ?n then var_name pv @ suffix_of f
       else name (nodes s m))" for m
    by (simp add: ns1 transfer_op_node_def transfer_var_node_def)
  have body1: "body (nodes s1 m) =
      (if m = c then Operation (RenameInput d (name (nodes s prev)) (var_name pv @ suffix_of f))
       else if m = ?n then Operation (update_op_desc f t b (var_name pv) (var_name pv @ suffix_of f))
       else if m = Suc ?n then Variable vd
       else body (nodes s m))" for m
    using prev c by (simp add: ns1 rewired_body transfer_op_node_def transfer_var_node_def)
  show "node_count s' = node_count s + 2"
    using h m by simp
  show "cache s' = (cache s)(prev \<mapsto> Suc (node_count s))"
    using h m by simp
  have b_n: "body (nodes s' ?n) = body (nodes s1 ?n)" and b_v: "body (nodes s' (Suc ?n)) = body (nodes s1 (Suc ?n))"
    using h cs by blast+
  show "\<exists>d. Op (nodes s' ?n) = Inr d \<and> op_type d = ''transfer_layout''"
    using b_n c by (simp add: Op_def body1 update_op_desc_def)
  have name_v: "name (nodes s' (Suc ?n)) = var_name pv @ suffix_of f"
    using h by (simp add: names1)
  show "\<exists>pv vd. Var (nodes s prev) = Inr pv \<and> Var (nodes s' (Suc ?n)) = Inr vd \<and>
           var_name vd = var_name pv @ suffix_of f \<and>
           name (nodes s' (Suc ?n)) = var_name pv @ suffix_of f"
    using pv vd b_v c name_v by (simp add: Var_def body1)
  show "\<forall>x \<in> set (c # cs). \<exists>d. Op (nodes s x) = Inr d \<and>
           Op (nodes s' x) = Inr (RenameInput d (name (nodes s prev)) (name (nodes s' (Suc ?n))))"
  proof
    fix x assume x: "x \<in> set (c # cs)"
    with cons have xn: "x < ?n" by auto
    have np: "name (nodes s1 prev) = name (nodes s prev)"
      using prev by (simp add: names1)
    have nv: "name (nodes s1 (Suc ?n)) = var_name pv @ suffix_of f"
      by (simp add: names1)
    show "\<exists>d. Op (nodes s x) = Inr d \<and>
           Op (nodes s' x) = Inr (RenameInput d (name (nodes s prev)) (name (nodes s' (Suc ?n))))"
    proof (cases "x \<in> set cs")
      case True
      with h obtain d1 where d1: "Op (nodes s1 x) = Inr d1"
        and d1': "Op (nodes s' x) = Inr (RenameInput d1 (name (nodes s1 prev)) (name (nodes s1 (Suc ?n))))"
        by blast
      show ?thesis
      proof (cases "x = c")
        case True
        with d1 have "d1 = RenameInput d (name (nodes s prev)) (var_name pv @ suffix_of f)"
          by (simp add: Op_def body1)
        with d1' True d show ?thesis
          by (simp add: np nv name_v RenameInput_idem)
      next
        case False
        with d1 xn have "Op (nodes s x) = Inr d1"
          by (simp add: Op_def body1)
        with d1' show ?thesis
          by (simp add: np nv name_v)
      qed
    next
      case False
      with x have xc: "x = c" by simp
      from False h have "body (nodes s' x) = body (nodes s1 x)" by blast
      with xc d show ?thesis
        by (simp add: Op_def body1 name_v)
    qed
  qed
  have "inputs (nodes s1 ?n) = [prev]"
    using c prev by (simp add: ns1 rewired_inputs transfer_op_node_def)
  with h show "inputs (nodes s' ?n) = replicate (length (c # cs)) prev"
    by simp
  have "outputs (nodes s1 (Suc ?n)) = [c]"
    using c prev by (simp add: ns1 rewired_outputs transfer_var_node_def)
  with h show "outputs (nodes s' (Suc ?n)) = c # cs"
    by simp
  have "count_list (outputs (nodes s1 prev)) ?n = Suc (count_list (outputs (nodes s prev)) ?n)"
    using c prev by (simp add: ns1 rewired_outputs count_list_removeAll)
  with h show "count_list (outputs (nodes s' prev)) ?n
           = count_list (outputs (nodes s prev)) ?n + length (c # cs)"
    by simp
  from h show "inputs (nodes s' (Suc ?n)) = [?n]"
    by simp
qed

subsection \<open>One conversion per producer\<close>

lemma two_consumers_run:
  "\<exists>s'. insert_for_consumers two_consumers 1 [0, 4] kNCHW kNHWC (Some 0) = Inr s'"
  by (simp add: two_consumers_def InsertLayoutTransOp_def do_insert_def create_transfer_def
      rewire_def Let_def Var_def Op_def var_node_of_def op_node_of_def conv_desc_def
      CreateOpNode_def CreateVarNode_def set_block_var_def set_op_desc_def BlockVar_def
      transfer_out_shape_def update_op_desc_def IR_NODE_LINK_TO_def IR_NODE_UNLINK_def)

text \<open>
  Claim C3. A producer without a cache entry is handed to conversion insertion once for
  each of its consumers, all in the same direction. When the calls return, exactly two
  nodes have been created: one \<open>transfer_layout\<close> operator and one output variable, which
  is the producer's entry in the cache; and every consumer's descriptor has the
  producer's name renamed to the name of that one cached output.
\<close>

theorem one_transfer_for_all_consumers:
  assumes "insert_for_consumers s prev cs f t bd = Inr s'"
    and "direction f t" and "cs \<noteq> []" and "cache s prev = None"
    and "prev < node_count s" and "\<forall>c \<in> set cs. c < node_count s"
  shows "node_count s' = node_count s + 2 \<and>
         (\<exists>d. Op (nodes s' (node_count s)) = Inr d \<and> op_type d = ''transfer_layout'') \<and>
         (\<exists>pv vd. Var (nodes s prev) = Inr pv \<and> Var (nodes s' (Suc (node_count s))) = Inr vd \<and>
            var_name vd = var_name pv @ suffix_of f \<and>
            name (nodes s' (Suc (node_count s))) = var_name pv @ suffix_of f) \<and>
         cache s' = (cache s)(prev \<mapsto> Suc (node_count s)) \<and>
         (\<forall>c \<in> set cs. \<exists>d. Op (nodes s c) = Inr d \<and>
            Op (nodes s' c) =
              Inr (RenameInput d (name (nodes s prev)) (name (nodes s' (Suc (node_count s))))))"
proof -
  from assms(3) obtain c cs' where cs: "cs = c # cs'"
    by (cases cs) auto
  note r = consumers_fold [OF assms(1) [unfolded cs] assms(2,4,5) assms(6) [unfolded cs]]
  from r(1-5) show ?thesis
    unfolding cs by blast
qed

theorem one_transfer_for_all_consumers_witness:
  "\<exists>s'. insert_for_consumers two_consumers 1 [0, 4] kNCHW kNHWC (Some 0) = Inr s' \<and>
        node_count s' = 9 \<and> cache s' 1 = Some 8 \<and>
        name (nodes s' 8) = ''x_nchw_to_nhwc'' \<and>
        Op (nodes s' 0) = Inr (RenameInput (conv_desc [''w''] nchw_attrs) ''x'' ''x_nchw_to_nhwc'') \<and>
        Op (nodes s' 4) = Inr (RenameInput (conv_desc [''v''] nchw_attrs) ''x'' ''x_nchw_to_nhwc'')"
proof -
  from two_consumers_run obtain s'
    where run: "insert_for_consumers two_consumers 1 [0, 4] kNCHW kNHWC (Some 0) = Inr s'" ..
  have h: "direction kNCHW kNHWC" "[0, 4] \<noteq> ([] :: nat list)" "cache two_consumers 1 = None"
    "1 < node_count two_consumers" "\<forall>c \<in> set [0, 4]. c < node_count two_consumers"
    by (simp_all add: direction_def two_consumers_def)
  have pv: "Var (nodes two_consumers 1)
              = Inr \<lparr>var_name = ''x'', var_shape = [1, 16, 32, 32], var_dtype = 5, var_persistable = False\<rparr>"
    "name (nodes two_consumers 1) = ''x''"
    "Op (nodes two_consumers 0) = Inr (conv_desc [''w''] nchw_attrs)"
    "Op (nodes two_consumers 4) = Inr (conv_desc [''v''] nchw_attrs)"
    "node_count two_consumers = 7"
    by (simp_all add: two_consumers_def Var_def Op_def var_node_of_def op_node_of_def)
  from one_transfer_for_all_consumers [OF run h] pv
  have "node_count s' = 9 \<and> cache s' 1 = Some 8 \<and>
        name (nodes s' 8) = ''x_nchw_to_nhwc'' \<and>
        Op (nodes s' 0) = Inr (RenameInput (conv_desc [''w''] nchw_attrs) ''x'' ''x_nchw_to_nhwc'') \<and>
        Op (nodes s' 4) = Inr (RenameInput (conv_desc [''v''] nchw_attrs) ''x'' ''x_nchw_to_nhwc'')"
    by (auto simp: suffix_of_def eval_nat_numeral)
  with run show ?thesis by blast
qed

text \<open>
  Claim C9. Every call of conversion insertion, cache hits included, appends an edge from
  the producer to the conversion operator and an edge from the conversion output to the
  consumer. After the calls for N consumers the conversion operator has the producer N
  times among its inputs, the producer has gained N output edges to that operator, and
  the conversion output lists the N consumers.
\<close>

theorem parallel_edges_per_consumer:
  assumes "insert_for_consumers s prev cs f t bd = Inr s'"
    and "direction f t" and "cs \<noteq> []" and "cache s prev = None"
    and "prev < node_count s" and "\<forall>c \<in> set cs. c < node_count s"
  shows "cache s' prev = Some (Suc (node_count s)) \<and>
         inputs (nodes s' (Suc (node_count s))) = [node_count s] \<and>
         inputs (nodes s' (node_count s)) = replicate (length cs) prev \<and>
         outputs (nodes s' (Suc (node_count s))) = cs \<and>
         count_list (outputs (nodes s' prev)) (node_count s)
           = count_list (outputs (nodes s prev)) (node_count s) + length cs"
proof -
  from assms(3) obtain c cs' where cs: "cs = c # cs'"
    by (cases cs) auto
  note r = consumers_fold [OF assms(1) [unfolded cs] assms(2,4,5) assms(6) [unfolded cs]]
  from r(2,6,7,8,9) show ?thesis
    unfolding cs by simp
qed

theorem parallel_edges_per_consumer_witness:
  "\<exists>s'. insert_for_consumers two_consumers 1 [0, 4] kNCHW kNHWC (Some 0) = Inr s' \<and>
        inputs (nodes s' 7) = [1, 1] \<and> outputs (nodes s' 8) = [0, 4] \<and>
        count_list (outputs (nodes s' 1)) 7 = 2"
proof -
  from two_consumers_run obtain s'
    where run: "insert_for_consumers two_consumers 1 [0, 4] kNCHW kNHWC (Some 0) = Inr s'" ..
  have h: "direction kNCHW kNHWC" "[0, 4] \<noteq> ([] :: nat list)" "cache two_consumers 1 = None"
    "1 < node_count two_consumers" "\<forall>c \<in> set [0, 4]. c < node_count two_consumers"
    by (simp_all add: direction_def two_consumers_def)
  have pv: "outputs (nodes two_consumers 1) = [0, 4]" "node_count two_consumers = 7"
    by (simp_all add: two_consumers_def var_node_of_def)
  from parallel_edges_per_consumer [OF run h] pv
  have "inputs (nodes s' 7) = [1, 1] \<and> outputs (nodes s' 8) = [0, 4] \<and>
        count_list (outputs (nodes s' 1)) 7 = 2"
    by (auto simp: eval_nat_numeral)
  with run show ?thesis by blast
qed

subsection \<open>The weights of a valid operator\<close>

lemma permute_filter_vars_fields:
  "permute_filter_vars s f vs = Inr s' \<Longrightarrow>
   node_count s' = node_count s \<and> cache s' = cache s \<and> tensors s' = tensors s \<and>
   vars_shape_nhwc s' = vars_shape_nhwc s \<and> insert_calls s' = insert_calls s \<and>
   (\<forall>m. name (nodes s' m) = name (nodes s m) \<and> inputs (nodes s' m) = inputs (nodes s m) \<and>
        outputs (nodes s' m) = outputs (nodes s m))"
  by (induction s f vs rule: permute_filter_vars.induct)
     (auto simp: set_var_desc_def split: sum.splits if_splits)

lemma permute_filter_vars_other:
  "permute_filter_vars s f vs = Inr s' \<Longrightarrow>
   (\<And>vd. body (nodes s m) = Variable vd \<Longrightarrow> \<not> (var_persistable vd \<and> var_name vd = f \<and> m \<in> set vs)) \<Longrightarrow>
   nodes s' m = nodes s m"
proof (induction s f vs rule: permute_filter_vars.induct)
  case (1 s f)
  then show ?case by simp
next
  case (2 s f v rest)
  from "2.prems"(1) obtain vd where vd: "Var (nodes s v) = Inr vd"
    by (auto split: sum.splits)
  show ?case
  proof (cases "var_persistable vd \<and> var_name vd = f")
    case True
    with "2.prems"(1) vd obtain sh where sh: "nchw_to_nhwc_shape (var_shape vd) = Inr sh"
      and r: "permute_filter_vars (set_var_desc s v (vd\<lparr>var_shape := sh\<rparr>)) f rest = Inr s'"
      by (auto split: sum.splits)
    from vd True "2.prems"(2) have mv: "m \<noteq> v"
      by (auto simp: Var_def split: NodeBody.splits)
    have "nodes s' m = nodes (set_var_desc s v (vd\<lparr>var_shape := sh\<rparr>)) m"
      using "2.IH"(1) [OF vd True sh r] "2.prems"(2) mv by (simp add: set_var_desc_def)
    with mv show ?thesis by (simp add: set_var_desc_def)
  next
    case False
    with "2.prems"(1) vd have r: "permute_filter_vars s f rest = Inr s'"
      by (auto split: sum.splits)
    from "2.IH"(2) [OF vd False r] "2.prems"(2) show ?thesis
      by auto
  qed
qed

lemma permute_filter_vars_hit:
  "permute_filter_vars s f vs = Inr s' \<Longrightarrow> distinct vs \<Longrightarrow> m \<in> set vs \<Longrightarrow>
   body (nodes s m) = Variable vd \<Longrightarrow> var_persistable vd \<Longrightarrow> var_name vd = f \<Longrightarrow>
   \<exists>sh. nchw_to_nhwc_shape (var_shape vd) = Inr sh \<and>
        body (nodes s' m) = Variable (vd\<lparr>var_shape := sh\<rparr>)"
proof (induction s f vs rule: permute_filter_vars.induct)
  case (1 s f)
  then show ?case by simp
next
  case (2 s f v rest)
  from "2.prems"(1) obtain vd0 where vd0: "Var (nodes s v) = Inr vd0"
    by (auto split: sum.splits)
  show ?case
  proof (cases "m = v")
    case True
    with vd0 "2.prems"(4) have e: "vd0 = vd"
      by (simp add: Var_def)
    with "2.prems" vd0 obtain sh where sh: "nchw_to_nhwc_shape (var_shape vd) = Inr sh"
      and r: "permute_filter_vars (set_var_desc s v (vd\<lparr>var_shape := sh\<rparr>)) f rest = Inr s'"
      by (auto split: sum.splits)
    from "2.prems"(2) True have "m \<notin> set rest" by simp
    then have "nodes s' m = nodes (set_var_desc s v (vd\<lparr>var_shape := sh\<rparr>)) m"
      by (intro permute_filter_vars_other [OF r]) simp
    with True sh show ?thesis
      by (simp add: set_var_desc_def)
  next
    case False
    with "2.prems"(3) have mr: "m \<in> set rest" by simp
    from "2.prems"(2) have dr: "distinct rest" by simp
    show ?thesis
    proof (cases "var_persistable vd0 \<and> var_name vd0 = f")
      case True
      with "2.prems"(1) vd0 obtain sh where sh: "nchw_to_nhwc_shape (var_shape vd0) = Inr sh"
        and r: "permute_filter_vars (set_var_desc s v (vd0\<lparr>var_shape := sh\<rparr>)) f rest = Inr s'"
        by (auto split: sum.splits)
      have b: "body (nodes (set_var_desc s v (vd0\<lparr>var_shape := sh\<rparr>)) m) = Variable vd"
        using False "2.prems"(4) by (simp add: set_var_desc_def)
      from "2.IH"(1) [OF vd0 True sh r dr mr b "2.prems"(5,6)] show ?thesis .
    next
      case F: False
      with "2.prems"(1) vd0 have r: "permute_filter_vars s f rest = Inr s'"
        by (auto split: sum.splits)
      from "2.IH"(2) [OF vd0 F r dr mr "2.prems"(4,5,6)] show ?thesis .
    qed
  qed
qed

lemma TransDataLayout_layout: "TransDataLayout f t x = Inr y \<Longrightarrow> layout y = t"
  by (auto simp: TransDataLayout_def split: if_splits sum.splits)

lemma transfer_weights_fields:
  "transfer_weights s n fs = Inr s' \<Longrightarrow>
   node_count s' = node_count s \<and> cache s' = cache s \<and>
   vars_shape_nhwc s' = vars_shape_nhwc s \<and> insert_calls s' = insert_calls s \<and>
   (\<forall>m. name (nodes s' m) = name (nodes s m) \<and> inputs (nodes s' m) = inputs (nodes s m) \<and>
        outputs (nodes s' m) = outputs (nodes s m))"
proof (induction s n fs rule: transfer_weights.induct)
  case (1 s n)
  then show ?case by simp
next
  case (2 s n g rest)
  from "2.prems" obtain tg where tg: "tensors s g = Some tg"
    by (auto split: option.splits)
  show ?case
  proof (cases "layout tg = kNHWC")
    case True
    with 2 tg show ?thesis by simp
  next
    case False
    with "2.prems" tg obtain t' s2 where t': "TransDataLayout kNCHW kNHWC tg = Inr t'"
      and p: "permute_filter_vars (s\<lparr>tensors := (tensors s)(g \<mapsto> t')\<rparr>) g
                (inputs (nodes s n)) = Inr s2"
      and r: "transfer_weights s2 n rest = Inr s'"
      by (auto simp: Let_def split: sum.splits)
    from "2.IH"(2) [OF tg False t' refl _ r] p permute_filter_vars_fields [OF p]
    show ?thesis by simp
  qed
qed

lemma transfer_weights_cases:
  assumes "transfer_weights s n fs = Inr s'" and "distinct (inputs (nodes s n))"
  shows "(f \<notin> set fs \<or> (\<exists>t. tensors s f = Some t \<and> layout t = kNHWC) \<longrightarrow>
           tensors s' f = tensors s f \<and>
           (\<forall>v vd. body (nodes s v) = Variable vd \<and> var_name vd = f \<longrightarrow> nodes s' v = nodes s v)) \<and>
         (\<forall>t. f \<in> set fs \<and> tensors s f = Some t \<and> layout t \<noteq> kNHWC \<longrightarrow>
           (\<exists>t'. TransDataLayout kNCHW kNHWC t = Inr t' \<and> tensors s' f = Some t') \<and>
           (\<forall>v \<in> set (inputs (nodes s n)). \<forall>vd.
               body (nodes s v) = Variable vd \<and> var_persistable vd \<and> var_name vd = f \<longrightarrow>
               (\<exists>sh. nchw_to_nhwc_shape (var_shape vd) = Inr sh \<and>
                     body (nodes s' v) = Variable (vd\<lparr>var_shape := sh\<rparr>))))"
  using assms
proof (induction s n fs rule: transfer_weights.induct)
  case (1 s n)
  then show ?case by simp
next
  case (2 s n g rest)
  from "2.prems"(1) obtain tg where tg: "tensors s g = Some tg"
    by (auto split: option.splits)
  show ?case
  proof (cases "layout tg = kNHWC")
    case True
    with "2.prems"(1) tg have r: "transfer_weights s n rest = Inr s'" by simp
    note IH = "2.IH"(1) [OF tg True r "2.prems"(2)]
    have part1: "f \<notin> set (g # rest) \<or> (\<exists>t. tensors s f = Some t \<and> layout t = kNHWC) \<longrightarrow>
        tensors s' f = tensors s f \<and>
        (\<forall>v vd. body (nodes s v) = Variable vd \<and> var_name vd = f \<longrightarrow> nodes s' v = nodes s v)"
    proof
      assume h: "f \<notin> set (g # rest) \<or> (\<exists>t. tensors s f = Some t \<and> layout t = kNHWC)"
      then have "f \<notin> set rest \<or> (\<exists>t. tensors s f = Some t \<and> layout t = kNHWC)" by auto
      with IH show "tensors s' f = tensors s f \<and>
        (\<forall>v vd. body (nodes s v) = Variable vd \<and> var_name vd = f \<longrightarrow> nodes s' v = nodes s v)"
        by blast
    qed
    have part2: "\<forall>t. f \<in> set (g # rest) \<and> tensors s f = Some t \<and> layout t \<noteq> kNHWC \<longrightarrow>
           (\<exists>t'. TransDataLayout kNCHW kNHWC t = Inr t' \<and> tensors s' f = Some t') \<and>
           (\<forall>v \<in> set (inputs (nodes s n)). \<forall>vd.
               body (nodes s v) = Variable vd \<and> var_persistable vd \<and> var_name vd = f \<longrightarrow>
               (\<exists>sh. nchw_to_nhwc_shape (var_shape vd) = Inr sh \<and>
                     body (nodes s' v) = Variable (vd\<lparr>var_shape := sh\<rparr>)))"
    proof (intro allI impI)
      fix t assume h: "f \<in> set (g # rest) \<and> tensors s f = Some t \<and> layout t \<noteq> kNHWC"
      with True tg have "f \<in> set rest" by auto
      with IH h show "(\<exists>t'. TransDataLayout kNCHW kNHWC t = Inr t' \<and> tensors s' f = Some t') \<and>
           (\<forall>v \<in> set (inputs (nodes s n)). \<forall>vd.
               body (nodes s v) = Variable vd \<and> var_persistable vd \<and> var_name vd = f \<longrightarrow>
               (\<exists>sh. nchw_to_nhwc_shape (var_shape vd) = Inr sh \<and>
                     body (nodes s' v) = Variable (vd\<lparr>var_shape := sh\<rparr>)))"
        by blast
    qed
    from part1 part2 show ?thesis ..
  next
    case False
    with "2.prems"(1) tg obtain t' s2 where t': "TransDataLayout kNCHW kNHWC tg = Inr t'"
      and p0: "permute_filter_vars (s\<lparr>tensors := (tensors s)(g \<mapsto> t')\<rparr>) g
                (inputs (nodes (s\<lparr>tensors := (tensors s)(g \<mapsto> t')\<rparr>) n)) = Inr s2"
      and r: "transfer_weights s2 n rest = Inr s'"
      by (auto simp: Let_def split: sum.splits)
    from p0 have p: "permute_filter_vars (s\<lparr>tensors := (tensors s)(g \<mapsto> t')\<rparr>) g
                (inputs (nodes s n)) = Inr s2"
      by simp
    have pf: "tensors s2 = (tensors s)(g \<mapsto> t')" "\<And>m. inputs (nodes s2 m) = inputs (nodes s m)"
      using permute_filter_vars_fields [OF p] by simp_all
    have d2: "distinct (inputs (nodes s2 n))"
      using pf "2.prems"(2) by simp
    note IH = "2.IH"(2) [OF tg False t' refl p0 r d2]
    have same: "nodes s2 v = nodes s v" if "f \<noteq> g" "body (nodes s v) = Variable vd" "var_name vd = f" for v vd
      using that by (intro permute_filter_vars_other [OF p, simplified]) auto
    have part1: "f \<notin> set (g # rest) \<or> (\<exists>t. tensors s f = Some t \<and> layout t = kNHWC) \<longrightarrow>
        tensors s' f = tensors s f \<and>
        (\<forall>v vd. body (nodes s v) = Variable vd \<and> var_name vd = f \<longrightarrow> nodes s' v = nodes s v)"
    proof
      assume h: "f \<notin> set (g # rest) \<or> (\<exists>t. tensors s f = Some t \<and> layout t = kNHWC)"
      with tg False have fg: "f \<noteq> g" by auto
      with h pf have "f \<notin> set rest \<or> (\<exists>t. tensors s2 f = Some t \<and> layout t = kNHWC)"
        by auto
      with IH have "tensors s' f = tensors s2 f"
        and "\<And>v vd. body (nodes s2 v) = Variable vd \<Longrightarrow> var_name vd = f \<Longrightarrow> nodes s' v = nodes s2 v"
        by blast+
      with same [OF fg] pf fg show "tensors s' f = tensors s f \<and>
        (\<forall>v vd. body (nodes s v) = Variable vd \<and> var_name vd = f \<longrightarrow> nodes s' v = nodes s v)"
        by auto
    qed
    have part2: "\<forall>t. f \<in> set (g # rest) \<and> tensors s f = Some t \<and> layout t \<noteq> kNHWC \<longrightarrow>
           (\<exists>t'. TransDataLayout kNCHW kNHWC t = Inr t' \<and> tensors s' f = Some t') \<and>
           (\<forall>v \<in> set (inputs (nodes s n)). \<forall>vd.
               body (nodes s v) = Variable vd \<and> var_persistable vd \<and> var_name vd = f \<longrightarrow>
               (\<exists>sh. nchw_to_nhwc_shape (var_shape vd) = Inr sh \<and>
                     body (nodes s' v) = Variable (vd\<lparr>var_shape := sh\<rparr>)))"
    proof (intro allI impI)
      fix t assume h: "f \<in> set (g # rest) \<and> tensors s f = Some t \<and> layout t \<noteq> kNHWC"
      show "(\<exists>t'. TransDataLayout kNCHW kNHWC t = Inr t' \<and> tensors s' f = Some t') \<and>
           (\<forall>v \<in> set (inputs (nodes s n)). \<forall>vd.
               body (nodes s v) = Variable vd \<and> var_persistable vd \<and> var_name vd = f \<longrightarrow>
               (\<exists>sh. nchw_to_nhwc_shape (var_shape vd) = Inr sh \<and>
                     body (nodes s' v) = Variable (vd\<lparr>var_shape := sh\<rparr>)))"
      proof (cases "f = g")
        case True
        with h tg have tt: "tg = t" by simp
        have "\<exists>t. tensors s2 f = Some t \<and> layout t = kNHWC"
          using pf True TransDataLayout_layout [OF t'] by simp
        with IH have keep: "tensors s' f = tensors s2 f"
          "\<And>v vd. body (nodes s2 v) = Variable vd \<Longrightarrow> var_name vd = f \<Longrightarrow> nodes s' v = nodes s2 v"
          by blast+
        have "\<exists>sh. nchw_to_nhwc_shape (var_shape vd) = Inr sh \<and>
                   body (nodes s' v) = Variable (vd\<lparr>var_shape := sh\<rparr>)"
          if v: "v \<in> set (inputs (nodes s n))" and b: "body (nodes s v) = Variable vd"
            and pn: "var_persistable vd" "var_name vd = f" for v vd
        proof -
          from permute_filter_vars_hit [OF p "2.prems"(2) v _ pn(1)] b pn(2) True
          obtain sh where sh: "nchw_to_nhwc_shape (var_shape vd) = Inr sh"
            and b2: "body (nodes s2 v) = Variable (vd\<lparr>var_shape := sh\<rparr>)"
            by auto
          from keep(2) [OF b2] pn(2) have "nodes s' v = nodes s2 v"
            by simp
          with sh b2 show ?thesis by auto
        qed
        moreover have "tensors s' f = Some t'"
          using keep(1) pf True by simp
        ultimately show ?thesis
          using t' tt by blast
      next
        case fg: False
        with h have fr: "f \<in> set rest" by simp
        from pf fg h have t2: "tensors s2 f = Some t" by simp
        from IH fr t2 h
        have c: "\<exists>t'. TransDataLayout kNCHW kNHWC t = Inr t' \<and> tensors s' f = Some t'"
          and v2: "\<And>v vd. v \<in> set (inputs (nodes s2 n)) \<Longrightarrow> body (nodes s2 v) = Variable vd \<Longrightarrow>
                     var_persistable vd \<Longrightarrow> var_name vd = f \<Longrightarrow>
                     \<exists>sh. nchw_to_nhwc_shape (var_shape vd) = Inr sh \<and>
                          body (nodes s' v) = Variable (vd\<lparr>var_shape := sh\<rparr>)"
          by blast+
        have "\<exists>sh. nchw_to_nhwc_shape (var_shape vd) = Inr sh \<and>
                   body (nodes s' v) = Variable (vd\<lparr>var_shape := sh\<rparr>)"
          if v: "v \<in> set (inputs (nodes s n))" and b: "body (nodes s v) = Variable vd"
            and pn: "var_persistable vd" "var_name vd = f" for v vd
        proof -
          from same [OF fg b pn(2)] b have "body (nodes s2 v) = Variable vd" by simp
          from v2 [OF _ this pn] v pf show ?thesis by simp
        qed
        with c show ?thesis by blast
      qed
    qed
    from part1 part2 show ?thesis ..
  qed
qed

subsection \<open>What a step leaves alone\<close>

lemma IsOp_iff_Op: "IsOp n \<longleftrightarrow> (\<exists>d. Op n = Inr d)"
  by (auto simp: IsOp_def Op_def split: NodeBody.splits)

lemma IsVar_iff_not_Op: "IsVar n \<longleftrightarrow> \<not> IsOp n"
  by (auto simp: IsOp_def IsVar_def split: NodeBody.splits)

lemma IsVar_iff_Var: "IsVar n \<longleftrightarrow> (\<exists>d. Var n = Inr d)"
  by (auto simp: IsVar_def Var_def split: NodeBody.splits)

lemma Op_eq_body: "Op n = Op n' \<Longrightarrow> body n = Operation d \<Longrightarrow> body n' = Operation d"
  by (auto simp: Op_def split: NodeBody.splits)

lemma same_edges_refl: "same_edges s s"
  by (simp add: same_edges_def)

lemma same_edges_trans: "same_edges s s1 \<Longrightarrow> same_edges s1 s2 \<Longrightarrow> same_edges s s2"
  by (simp add: same_edges_def)

lemma same_edges_set_var_desc:
  "Var (nodes s v) = Inr vd \<Longrightarrow> same_edges s (set_var_desc s v vd')"
  by (auto simp: same_edges_def set_var_desc_def Var_def Op_def split: NodeBody.splits)

lemma same_edges_tensors: "same_edges s (s\<lparr>tensors := x\<rparr>)"
  by (simp add: same_edges_def)

lemma same_edges_nhwc: "same_edges s (s\<lparr>vars_shape_nhwc := x\<rparr>)"
  by (simp add: same_edges_def)

lemma permute_filter_vars_same_edges:
  "permute_filter_vars s f vs = Inr s' \<Longrightarrow> same_edges s s'"
proof (induction s f vs rule: permute_filter_vars.induct)
  case (1 s f)
  then show ?case by (simp add: same_edges_refl)
next
  case (2 s f v rest)
  from "2.prems" obtain vd where vd: "Var (nodes s v) = Inr vd"
    by (auto split: sum.splits)
  show ?case
  proof (cases "var_persistable vd \<and> var_name vd = f")
    case True
    with "2.prems" vd obtain sh where sh: "nchw_to_nhwc_shape (var_shape vd) = Inr sh"
      and r: "permute_filter_vars (set_var_desc s v (vd\<lparr>var_shape := sh\<rparr>)) f rest = Inr s'"
      by (auto split: sum.splits)
    from same_edges_trans [OF same_edges_set_var_desc [OF vd] "2.IH"(1) [OF vd True sh r]]
    show ?thesis .
  next
    case False
    with "2.prems" vd have r: "permute_filter_vars s f rest = Inr s'"
      by (auto split: sum.splits)
    from "2.IH"(2) [OF vd False r] show ?thesis .
  qed
qed

lemma transfer_weights_same_edges:
  "transfer_weights s n fs = Inr s' \<Longrightarrow>
   same_edges s s' \<and> vars_shape_nhwc s' = vars_shape_nhwc s"
proof (induction s n fs rule: transfer_weights.induct)
  case (1 s n)
  then show ?case by (simp add: same_edges_refl)
next
  case (2 s n g rest)
  from "2.prems" obtain tg where tg: "tensors s g = Some tg"
    by (auto split: option.splits)
  show ?case
  proof (cases "layout tg = kNHWC")
    case True
    with 2 tg show ?thesis by simp
  next
    case False
    with "2.prems" tg obtain t' s2 where t': "TransDataLayout kNCHW kNHWC tg = Inr t'"
      and p: "permute_filter_vars (s\<lparr>tensors := (tensors s)(g \<mapsto> t')\<rparr>) g
                (inputs (nodes (s\<lparr>tensors := (tensors s)(g \<mapsto> t')\<rparr>) n)) = Inr s2"
      and r: "transfer_weights s2 n rest = Inr s'"
      by (auto simp: Let_def split: sum.splits)
    from permute_filter_vars_same_edges [OF p] have "same_edges s s2"
      by (simp add: same_edges_def)
    moreover from permute_filter_vars_fields [OF p] have "vars_shape_nhwc s2 = vars_shape_nhwc s"
      by simp
    ultimately show ?thesis
      using "2.IH"(2) [OF tg False t' refl p r] by (auto intro: same_edges_trans)
  qed
qed

lemma transfer_outputs_same_edges:
  "transfer_outputs s vs = Inr s' \<Longrightarrow>
   same_edges s s' \<and> tensors s' = tensors s \<and>
   vars_shape_nhwc s \<subseteq> vars_shape_nhwc s' \<and> vars_shape_nhwc s' \<subseteq> vars_shape_nhwc s \<union> set vs"
proof (induction s vs rule: transfer_outputs.induct)
  case (1 s)
  then show ?case by (simp add: same_edges_refl)
next
  case (2 s v rest)
  from "2.prems" obtain vd where vd: "Var (nodes s v) = Inr vd"
    by (auto split: sum.splits)
  show ?case
  proof (cases "var_persistable vd")
    case True
    with "2.prems" vd have r: "transfer_outputs s rest = Inr s'"
      by simp
    from "2.IH"(1) [OF vd True r] show ?thesis by auto
  next
    case False
    with "2.prems" vd obtain sh where sh: "nchw_to_nhwc_shape (var_shape vd) = Inr sh"
      and r: "transfer_outputs ((set_var_desc s v (vd\<lparr>var_shape := sh\<rparr>))
                \<lparr>vars_shape_nhwc := insert v (vars_shape_nhwc s)\<rparr>) rest = Inr s'"
      by (auto split: sum.splits)
    have "same_edges s ((set_var_desc s v (vd\<lparr>var_shape := sh\<rparr>))
                \<lparr>vars_shape_nhwc := insert v (vars_shape_nhwc s)\<rparr>)"
      using same_edges_set_var_desc [OF vd, of "vd\<lparr>var_shape := sh\<rparr>"]
      by (simp add: same_edges_def)
    with "2.IH"(2) [OF vd False sh r] show ?thesis
      by (auto intro: same_edges_trans simp: set_var_desc_def)
  qed
qed


lemma rewired_inputs_other:
  "m \<noteq> nxt \<Longrightarrow> m \<noteq> front \<Longrightarrow> inputs (rewired ns prev front cv nxt d m) = inputs (ns m)"
  by (simp add: rewired_def renamed_node_def unlink_inputs link_inputs)

lemma rewired_outputs_other:
  "m \<noteq> prev \<Longrightarrow> m \<noteq> cv \<Longrightarrow> outputs (rewired ns prev front cv nxt d m) = outputs (ns m)"
  by (simp add: rewired_def renamed_node_def unlink_outputs link_outputs)

lemma rewired_other:
  "m \<noteq> prev \<Longrightarrow> m \<noteq> front \<Longrightarrow> m \<noteq> cv \<Longrightarrow> m \<noteq> nxt \<Longrightarrow>
   rewired ns prev front cv nxt d m = ns m"
  by (simp add: rewired_def link_other unlink_other)

lemma rewired_Var:
  "Op (ns nxt) = Inr d \<Longrightarrow> Var (rewired ns prev front cv nxt d m) = Var (ns m)"
  by (auto simp: Var_def Op_def rewired_body split: NodeBody.splits)

lemma rewired_IsOp:
  "Op (ns nxt) = Inr d \<Longrightarrow> IsOp (rewired ns prev front cv nxt d m) = IsOp (ns m)"
  by (auto simp: IsOp_def Op_def rewired_body split: NodeBody.splits)

lemma rewired_attrs:
  "Op (ns nxt) = Inr d \<Longrightarrow>
   (case body (rewired ns prev front cv nxt d m) of Operation d \<Rightarrow> Some (op_attrs d) | Variable _ \<Rightarrow> None)
   = (case body (ns m) of Operation d \<Rightarrow> Some (op_attrs d) | Variable _ \<Rightarrow> None)"
  by (auto simp: Op_def rewired_body RenameInput_def split: NodeBody.splits)

lemma insert_bodies:
  assumes "InsertLayoutTransOp s prev nxt f t bd = Inr s'"
  shows "node_count s \<le> node_count s'"
    and "tensors s' = tensors s"
    and "vars_shape_nhwc s' = vars_shape_nhwc s"
    and "insert_calls s' = insert_calls s @ [\<lparr>producer = prev, consumer = nxt, src_layout = f, dst_layout = t\<rparr>]"
    and "m < node_count s \<Longrightarrow> Var (nodes s' m) = Var (nodes s m)"
    and "m < node_count s \<Longrightarrow> attrs_at s' m = attrs_at s m"
    and "m < node_count s \<Longrightarrow> IsOp (nodes s' m) = IsOp (nodes s m)"
    and "m < node_count s \<Longrightarrow> name (nodes s' m) = name (nodes s m)"
proof -
  have "node_count s \<le> node_count s' \<and> tensors s' = tensors s \<and>
        vars_shape_nhwc s' = vars_shape_nhwc s \<and>
        insert_calls s' = insert_calls s @ [\<lparr>producer = prev, consumer = nxt, src_layout = f, dst_layout = t\<rparr>] \<and>
        (m < node_count s \<longrightarrow> Var (nodes s' m) = Var (nodes s m) \<and> attrs_at s' m = attrs_at s m \<and>
           IsOp (nodes s' m) = IsOp (nodes s m) \<and> name (nodes s' m) = name (nodes s m))"
  proof (cases "direction f t")
    case False
    from insert_no_direction [OF False, of s prev nxt bd] assms show ?thesis
      by (auto simp: attrs_at_def)
  next
    case dir: True
    show ?thesis
    proof (cases "cache s prev")
      case None
      note m = insert_miss [OF assms dir None]
      from m(1) obtain d pv vd b where
        all: "Var (nodes s prev) = Inr pv \<and> bd = Some b \<and>
           var_name vd = var_name pv @ suffix_of f \<and> \<not> var_persistable vd \<and>
           Op (((nodes s)
               (node_count s :=
                  transfer_op_node f t b (var_name pv) (var_name pv @ suffix_of f) (Suc (node_count s)),
                Suc (node_count s) :=
                  transfer_var_node (var_name pv @ suffix_of f) vd (node_count s))) nxt) = Inr d \<and>
           nodes s' =
             rewired ((nodes s)
               (node_count s :=
                  transfer_op_node f t b (var_name pv) (var_name pv @ suffix_of f) (Suc (node_count s)),
                Suc (node_count s) :=
                  transfer_var_node (var_name pv @ suffix_of f) vd (node_count s)))
               prev (node_count s) (Suc (node_count s)) nxt d"
        by (elim exE) (rule that)
      define ns1 where "ns1 = (nodes s)
               (node_count s :=
                  transfer_op_node f t b (var_name pv) (var_name pv @ suffix_of f) (Suc (node_count s)),
                Suc (node_count s) :=
                  transfer_var_node (var_name pv @ suffix_of f) vd (node_count s))"
      with all have d: "Op (ns1 nxt) = Inr d"
        and ns': "nodes s' = rewired ns1 prev (node_count s) (Suc (node_count s)) nxt d"
        by simp_all
      have low: "ns1 m = nodes s m" if "m < node_count s"
        using that by (simp add: ns1_def)
      from m(2-6) low show ?thesis
        by (simp add: ns' rewired_Var [of ns1 nxt d, OF d] rewired_IsOp [of ns1 nxt d, OF d]
            attrs_at_def rewired_attrs [of ns1 nxt d, OF d])
    next
      case (Some cv)
      note h = insert_hit [OF assms dir Some]
      from h(1) obtain d front where d: "Op (nodes s nxt) = Inr d"
        and ns': "nodes s' = rewired (nodes s) prev front cv nxt d"
        by auto
      from h(2-6) show ?thesis
        by (simp add: ns' rewired_Var [of "nodes s" nxt d, OF d] rewired_IsOp [of "nodes s" nxt d, OF d]
            attrs_at_def rewired_attrs [of "nodes s" nxt d, OF d])
    qed
  qed
  then show "node_count s \<le> node_count s'" "tensors s' = tensors s"
    "vars_shape_nhwc s' = vars_shape_nhwc s" "insert_calls s' = insert_calls s @ [\<lparr>producer = prev, consumer = nxt, src_layout = f, dst_layout = t\<rparr>]"
    "m < node_count s \<Longrightarrow> Var (nodes s' m) = Var (nodes s m)"
    "m < node_count s \<Longrightarrow> attrs_at s' m = attrs_at s m"
    "m < node_count s \<Longrightarrow> IsOp (nodes s' m) = IsOp (nodes s m)"
    "m < node_count s \<Longrightarrow> name (nodes s' m) = name (nodes s m)"
    by simp_all
qed

lemma insert_frame:
  assumes run: "InsertLayoutTransOp s prev nxt f t bd = Inr s'"
    and ok: "cache_ok n0 s" and nxt: "nxt < n0" and prev: "prev < n0"
  shows "cache_ok n0 s'"
    and "m < n0 \<Longrightarrow> m \<noteq> nxt \<Longrightarrow> IsOp (nodes s m) \<Longrightarrow> nodes s' m = nodes s m"
proof -
  from ok have n0: "n0 \<le> node_count s"
    by (simp add: cache_ok_def)
  have "cache_ok n0 s' \<and> (m < n0 \<longrightarrow> m \<noteq> nxt \<longrightarrow> IsOp (nodes s m) \<longrightarrow> nodes s' m = nodes s m)"
  proof (cases "direction f t")
    case False
    from insert_no_direction [OF False, of s prev nxt bd] run ok show ?thesis
      by (auto simp: cache_ok_def)
  next
    case dir: True
    show ?thesis
    proof (cases "cache s prev")
      case None
      let ?n = "node_count s"
      note r = insert_miss [OF run dir None]
      from r(1) obtain d pv vd b where
        "Var (nodes s prev) = Inr pv \<and> bd = Some b \<and>
           var_name vd = var_name pv @ suffix_of f \<and> \<not> var_persistable vd \<and>
           Op (((nodes s)
               (?n := transfer_op_node f t b (var_name pv) (var_name pv @ suffix_of f) (Suc ?n),
                Suc ?n := transfer_var_node (var_name pv @ suffix_of f) vd ?n)) nxt) = Inr d \<and>
           nodes s' =
             rewired ((nodes s)
               (?n := transfer_op_node f t b (var_name pv) (var_name pv @ suffix_of f) (Suc ?n),
                Suc ?n := transfer_var_node (var_name pv @ suffix_of f) vd ?n))
               prev ?n (Suc ?n) nxt d"
        by (elim exE) (rule that)
      then have pv: "Var (nodes s prev) = Inr pv"
        and ns': "nodes s' =
             rewired ((nodes s)
               (?n := transfer_op_node f t b (var_name pv) (var_name pv @ suffix_of f) (Suc ?n),
                Suc ?n := transfer_var_node (var_name pv @ suffix_of f) vd ?n))
               prev ?n (Suc ?n) nxt d"
        by simp_all
      have frame: "nodes s' m = nodes s m" if "m < n0" "m \<noteq> nxt" "IsOp (nodes s m)"
      proof -
        from that pv have "m \<noteq> prev"
          by (auto simp: IsOp_iff_Op dest: Var_not_Op)
        with that n0 show ?thesis
          by (simp add: ns' rewired_other)
      qed
      have "n0 \<le> v \<and> v < node_count s' \<and> IsVar (nodes s' v) \<and>
            (\<forall>x \<in> set (inputs (nodes s' v)). n0 \<le> x \<and> x < node_count s' \<and> IsOp (nodes s' x))"
        if c: "cache s' p = Some v" for p v
      proof (cases "p = prev")
        case True
        with c r(3) have v: "v = Suc ?n" by simp
        have "inputs (nodes s' v) = [?n]"
          using nxt n0 by (simp add: v ns' rewired_inputs_other transfer_var_node_def)
        moreover have "IsVar (nodes s' v)"
          using nxt n0 by (simp add: v ns' IsVar_def rewired_body transfer_var_node_def)
        moreover have "IsOp (nodes s' ?n)"
          using nxt n0 by (simp add: ns' IsOp_def rewired_body transfer_op_node_def)
        ultimately show ?thesis
          using n0 r(2) v by simp
      next
        case False
        with c r(3) have c0: "cache s p = Some v" by simp
        with ok have v: "n0 \<le> v" "v < ?n" "IsVar (nodes s v)"
          and xs: "\<And>x. x \<in> set (inputs (nodes s v)) \<Longrightarrow> n0 \<le> x \<and> x < ?n \<and> IsOp (nodes s x)"
          by (auto simp: cache_ok_def)
        from v have "v < node_count s" by simp
        note b = insert_bodies(7) [OF run]
        have "inputs (nodes s' v) = inputs (nodes s v)"
          using v nxt by (simp add: ns' rewired_inputs_other)
        moreover have "IsVar (nodes s' v)"
          using b [OF \<open>v < node_count s\<close>] v(3) by (simp add: IsVar_iff_not_Op)
        moreover have "n0 \<le> x \<and> x < node_count s' \<and> IsOp (nodes s' x)"
          if "x \<in> set (inputs (nodes s v))" for x
          using xs [OF that] b [of x] r(2) by simp
        ultimately show ?thesis
          using v r(2) by simp
      qed
      with n0 r(2) frame show ?thesis
        by (auto simp: cache_ok_def)
    next
      case (Some cv)
      note h = insert_hit [OF run dir Some]
      from h(1) obtain d pv front rest where pv: "Var (nodes s prev) = Inr pv"
        and fr: "inputs (nodes s cv) = front # rest"
        and ns': "nodes s' = rewired (nodes s) prev front cv nxt d"
        by auto
      from ok Some fr have cv: "n0 \<le> cv" "IsVar (nodes s cv)" and front: "n0 \<le> front" "IsOp (nodes s front)"
        by (auto simp: cache_ok_def)
      have frame: "nodes s' m = nodes s m" if "m < n0" "m \<noteq> nxt" "IsOp (nodes s m)"
      proof -
        from that pv have "m \<noteq> prev"
          by (auto simp: IsOp_iff_Op dest: Var_not_Op)
        with that cv front show ?thesis
          by (simp add: ns' rewired_other)
      qed
      have "n0 \<le> v \<and> v < node_count s' \<and> IsVar (nodes s' v) \<and>
            (\<forall>x \<in> set (inputs (nodes s' v)). n0 \<le> x \<and> x < node_count s' \<and> IsOp (nodes s' x))"
        if c: "cache s' p = Some v" for p v
      proof -
        from c h(3) have c0: "cache s p = Some v" by simp
        with ok have v: "n0 \<le> v" "v < node_count s" "IsVar (nodes s v)"
          and xs: "\<And>x. x \<in> set (inputs (nodes s v)) \<Longrightarrow> n0 \<le> x \<and> x < node_count s \<and> IsOp (nodes s x)"
          by (auto simp: cache_ok_def)
        note b = insert_bodies(7) [OF run]
        from v(3) front(2) have "v \<noteq> front"
          by (auto simp: IsVar_iff_not_Op)
        then have "inputs (nodes s' v) = inputs (nodes s v)"
          using v nxt by (simp add: ns' rewired_inputs_other)
        moreover have "IsVar (nodes s' v)"
          using b [OF v(2)] v(3) by (simp add: IsVar_iff_not_Op)
        moreover have "n0 \<le> x \<and> x < node_count s' \<and> IsOp (nodes s' x)"
          if "x \<in> set (inputs (nodes s v))" for x
          using xs [OF that] b [of x] h(2) by simp
        ultimately show ?thesis
          using v h(2) by simp
      qed
      with n0 h(2) frame show ?thesis
        by (auto simp: cache_ok_def)
    qed
  qed
  then show "cache_ok n0 s'"
    and "m < n0 \<Longrightarrow> m \<noteq> nxt \<Longrightarrow> IsOp (nodes s m) \<Longrightarrow> nodes s' m = nodes s m"
    by simp_all
qed


lemma transfer_inputs_bodies:
  "transfer_inputs s n bd vs = Inr s' \<Longrightarrow>
   node_count s \<le> node_count s' \<and> tensors s' = tensors s \<and>
   vars_shape_nhwc s' = vars_shape_nhwc s \<and>
   (\<exists>new. insert_calls s' = insert_calls s @ new \<and>
      (\<forall>c \<in> set new. producer c \<in> set vs \<and> producer c \<notin> vars_shape_nhwc s \<and> consumer c = n \<and>
        direction_of c = (kNCHW, kNHWC))) \<and>
   (\<forall>m < node_count s. Var (nodes s' m) = Var (nodes s m) \<and> attrs_at s' m = attrs_at s m \<and>
      IsOp (nodes s' m) = IsOp (nodes s m))"
proof (induction s n bd vs rule: transfer_inputs.induct)
  case (1 s n bd)
  then show ?case by simp
next
  case (2 s n bd v rest)
  from "2.prems" obtain vd where vd: "Var (nodes s v) = Inr vd"
    by (auto split: sum.splits)
  show ?case
  proof (cases "var_persistable vd \<or> v \<in> vars_shape_nhwc s")
    case True
    with "2.prems" vd have r: "transfer_inputs s n bd rest = Inr s'"
      by (auto split: if_splits)
    from True "2.IH"(1) [OF vd _ r] "2.IH"(2) [OF vd _ _ r] show ?thesis
      by (cases "var_persistable vd") auto
  next
    case False
    with "2.prems" vd obtain s1 where i: "InsertLayoutTransOp s v n kNCHW kNHWC bd = Inr s1"
      and r: "transfer_inputs s1 n bd rest = Inr s'"
      by (auto split: sum.splits)
    note b = insert_bodies [OF i]
    from False have np: "\<not> var_persistable vd" and nn: "v \<notin> vars_shape_nhwc s" by auto
    from "2.IH"(3) [OF vd np nn i r] obtain new where
      IH: "node_count s1 \<le> node_count s'" "tensors s' = tensors s1"
        "vars_shape_nhwc s' = vars_shape_nhwc s1" "insert_calls s' = insert_calls s1 @ new"
        "\<forall>c \<in> set new. producer c \<in> set rest \<and> producer c \<notin> vars_shape_nhwc s1 \<and> consumer c = n \<and>
            direction_of c = (kNCHW, kNHWC)"
        "\<forall>m < node_count s1. Var (nodes s' m) = Var (nodes s1 m) \<and> attrs_at s' m = attrs_at s1 m \<and>
            IsOp (nodes s' m) = IsOp (nodes s1 m)"
      by auto
    have "insert_calls s' = insert_calls s @ (\<lparr>producer = v, consumer = n, src_layout = kNCHW, dst_layout = kNHWC\<rparr> # new)"
      using IH(4) b(4) by simp
    moreover have "\<forall>c \<in> set (\<lparr>producer = v, consumer = n, src_layout = kNCHW, dst_layout = kNHWC\<rparr> # new).
        producer c \<in> set (v # rest) \<and> producer c \<notin> vars_shape_nhwc s \<and> consumer c = n \<and>
        direction_of c = (kNCHW, kNHWC)"
      using IH(5) b(3) nn by (auto simp: direction_of_def)
    moreover have "\<forall>m < node_count s. Var (nodes s' m) = Var (nodes s m) \<and>
        attrs_at s' m = attrs_at s m \<and> IsOp (nodes s' m) = IsOp (nodes s m)"
      using IH(6) b(1) b(5,6,7) by (metis less_le_trans)
    ultimately show ?thesis
      using IH(1,2,3) b(1,2,3) by (intro conjI exI [of _ "\<lparr>producer = v, consumer = n, src_layout = kNCHW, dst_layout = kNHWC\<rparr> # new"]) auto
  qed
qed

lemma restore_inputs_bodies:
  "restore_inputs s n bd vs = Inr s' \<Longrightarrow>
   node_count s \<le> node_count s' \<and> tensors s' = tensors s \<and>
   vars_shape_nhwc s' = vars_shape_nhwc s \<and>
   (\<exists>new. insert_calls s' = insert_calls s @ new \<and>
      (\<forall>c \<in> set new. producer c \<in> set vs \<and> producer c \<in> vars_shape_nhwc s \<and> consumer c = n \<and>
        direction_of c = (kNHWC, kNCHW))) \<and>
   (\<forall>m < node_count s. Var (nodes s' m) = Var (nodes s m) \<and> attrs_at s' m = attrs_at s m \<and>
      IsOp (nodes s' m) = IsOp (nodes s m))"
proof (induction s n bd vs rule: restore_inputs.induct)
  case (1 s n bd)
  then show ?case by simp
next
  case (2 s n bd v rest)
  from "2.prems" have iv: "IsVar (nodes s v)"
    by (auto split: if_splits)
  show ?case
  proof (cases "v \<in> vars_shape_nhwc s")
    case False
    with "2.prems" iv have r: "restore_inputs s n bd rest = Inr s'"
      by simp
    from "2.IH"(2) [OF _ False r] iv show ?thesis
      by auto
  next
    case True
    with "2.prems" iv obtain s1 where i: "InsertLayoutTransOp s v n kNHWC kNCHW bd = Inr s1"
      and r: "restore_inputs s1 n bd rest = Inr s'"
      by (auto split: sum.splits)
    note b = insert_bodies [OF i]
    from "2.IH"(1) [OF _ True i r] iv obtain new where
      IH: "node_count s1 \<le> node_count s'" "tensors s' = tensors s1"
        "vars_shape_nhwc s' = vars_shape_nhwc s1" "insert_calls s' = insert_calls s1 @ new"
        "\<forall>c \<in> set new. producer c \<in> set rest \<and> producer c \<in> vars_shape_nhwc s1 \<and> consumer c = n \<and>
            direction_of c = (kNHWC, kNCHW)"
        "\<forall>m < node_count s1. Var (nodes s' m) = Var (nodes s1 m) \<and> attrs_at s' m = attrs_at s1 m \<and>
            IsOp (nodes s' m) = IsOp (nodes s1 m)"
      by auto
    have "insert_calls s' = insert_calls s @ (\<lparr>producer = v, consumer = n, src_layout = kNHWC, dst_layout = kNCHW\<rparr> # new)"
      using IH(4) b(4) by simp
    moreover have "\<forall>c \<in> set (\<lparr>producer = v, consumer = n, src_layout = kNHWC, dst_layout = kNCHW\<rparr> # new).
        producer c \<in> set (v # rest) \<and> producer c \<in> vars_shape_nhwc s \<and> consumer c = n \<and>
        direction_of c = (kNHWC, kNCHW)"
      using IH(5) b(3) True by (auto simp: direction_of_def)
    moreover have "\<forall>m < node_count s. Var (nodes s' m) = Var (nodes s m) \<and>
        attrs_at s' m = attrs_at s m \<and> IsOp (nodes s' m) = IsOp (nodes s m)"
      using IH(6) b(1) b(5,6,7) by (metis less_le_trans)
    ultimately show ?thesis
      using IH(1,2,3) b(1,2,3) by (intro conjI exI [of _ "\<lparr>producer = v, consumer = n, src_layout = kNHWC, dst_layout = kNCHW\<rparr> # new"]) auto
  qed
qed

lemma transfer_inputs_frame:
  "transfer_inputs s n bd vs = Inr s' \<Longrightarrow> cache_ok n0 s \<Longrightarrow> n < n0 \<Longrightarrow> \<forall>v \<in> set vs. v < n0 \<Longrightarrow>
   cache_ok n0 s' \<and> (\<forall>m < n0. m \<noteq> n \<longrightarrow> IsOp (nodes s m) \<longrightarrow> nodes s' m = nodes s m)"
proof (induction s n bd vs rule: transfer_inputs.induct)
  case (1 s n bd)
  then show ?case by simp
next
  case (2 s n bd v rest)
  from "2.prems"(1) obtain vd where vd: "Var (nodes s v) = Inr vd"
    by (auto split: sum.splits)
  from "2.prems"(4) have rest: "\<forall>v \<in> set rest. v < n0" and v: "v < n0" by auto
  show ?case
  proof (cases "var_persistable vd \<or> v \<in> vars_shape_nhwc s")
    case True
    with "2.prems"(1) vd have r: "transfer_inputs s n bd rest = Inr s'"
      by (auto split: if_splits)
    from True "2.IH"(1) [OF vd _ r "2.prems"(2,3) rest]
      "2.IH"(2) [OF vd _ _ r "2.prems"(2,3) rest] show ?thesis
      by (cases "var_persistable vd") auto
  next
    case False
    with "2.prems"(1) vd obtain s1 where i: "InsertLayoutTransOp s v n kNCHW kNHWC bd = Inr s1"
      and r: "transfer_inputs s1 n bd rest = Inr s'"
      by (auto split: sum.splits)
    from False have np: "\<not> var_persistable vd" and nn: "v \<notin> vars_shape_nhwc s" by auto
    note f = insert_frame [OF i "2.prems"(2,3) v]
    note IH = "2.IH"(3) [OF vd np nn i r f(1) "2.prems"(3) rest]
    have "nodes s' m = nodes s m" if m: "m < n0" "m \<noteq> n" "IsOp (nodes s m)" for m
    proof -
      from f(2) [OF m] have e: "nodes s1 m = nodes s m" .
      with m IH show ?thesis by simp
    qed
    with IH show ?thesis by blast
  qed
qed

lemma restore_inputs_frame:
  "restore_inputs s n bd vs = Inr s' \<Longrightarrow> cache_ok n0 s \<Longrightarrow> n < n0 \<Longrightarrow> \<forall>v \<in> set vs. v < n0 \<Longrightarrow>
   cache_ok n0 s' \<and> (\<forall>m < n0. m \<noteq> n \<longrightarrow> IsOp (nodes s m) \<longrightarrow> nodes s' m = nodes s m)"
proof (induction s n bd vs rule: restore_inputs.induct)
  case (1 s n bd)
  then show ?case by simp
next
  case (2 s n bd v rest)
  from "2.prems"(1) have iv: "IsVar (nodes s v)"
    by (auto split: if_splits)
  from "2.prems"(4) have rest: "\<forall>v \<in> set rest. v < n0" and v: "v < n0" by auto
  show ?case
  proof (cases "v \<in> vars_shape_nhwc s")
    case False
    with "2.prems"(1) iv have r: "restore_inputs s n bd rest = Inr s'"
      by simp
    from "2.IH"(2) [OF _ False r "2.prems"(2,3) rest] iv show ?thesis
      by auto
  next
    case True
    with "2.prems"(1) iv obtain s1 where i: "InsertLayoutTransOp s v n kNHWC kNCHW bd = Inr s1"
      and r: "restore_inputs s1 n bd rest = Inr s'"
      by (auto split: sum.splits)
    note f = insert_frame [OF i "2.prems"(2,3) v]
    from "2.IH"(1) [OF _ True i r f(1) "2.prems"(3) rest] iv
    have IH: "cache_ok n0 s' \<and> (\<forall>m < n0. m \<noteq> n \<longrightarrow> IsOp (nodes s1 m) \<longrightarrow> nodes s' m = nodes s1 m)"
      by auto
    have "nodes s' m = nodes s m" if m: "m < n0" "m \<noteq> n" "IsOp (nodes s m)" for m
    proof -
      from f(2) [OF m] have e: "nodes s1 m = nodes s m" .
      with m IH show ?thesis by simp
    qed
    with IH show ?thesis by blast
  qed
qed

subsection \<open>Committing one operator\<close>

lemma same_edges_IsOp: "same_edges s s' \<Longrightarrow> IsOp (nodes s' m) = IsOp (nodes s m)"
  by (simp add: same_edges_def IsOp_iff_Op)

lemma same_edges_attrs: "same_edges s s' \<Longrightarrow> attrs_at s' m = attrs_at s m"
proof -
  assume "same_edges s s'"
  then have "Op (nodes s' m) = Op (nodes s m)"
    by (simp add: same_edges_def)
  then show ?thesis
    by (cases "body (nodes s m)"; cases "body (nodes s' m)") (simp_all add: attrs_at_def Op_def)
qed

lemma same_edges_op_node:
  assumes "same_edges s s'" and "IsOp (nodes s m)"
  shows "nodes s' m = nodes s m"
proof -
  from assms(1) have "Op (nodes s m) = Op (nodes s' m)"
    by (simp add: same_edges_def)
  from Op_eq_body [OF this] assms(2) have "body (nodes s' m) = body (nodes s m)"
    by (cases "body (nodes s m)") (simp_all add: IsOp_def)
  with assms(1) show ?thesis
    by (simp add: same_edges_def)
qed

lemma cache_ok_cong:
  assumes "cache_ok n0 s" and "node_count s' = node_count s" and "cache s' = cache s"
    and "\<And>m. inputs (nodes s' m) = inputs (nodes s m)"
    and "\<And>m. IsOp (nodes s' m) = IsOp (nodes s m)"
  shows "cache_ok n0 s'"
  using assms by (simp add: cache_ok_def IsVar_iff_not_Op)

lemma cache_ok_same_edges: "same_edges s s' \<Longrightarrow> cache_ok n0 s \<Longrightarrow> cache_ok n0 s'"
  by (rule cache_ok_cong) (simp_all add: same_edges_IsOp, simp_all add: same_edges_def)

lemma commit_attrs_attrs:
  assumes "commit_attrs uc sc d = Inr d'"
  shows "op_attrs d' =
     (if P2 uc d then
        (if HasAttr d ''fuse_alpha'' then op_attrs d else (op_attrs d)(''fuse_alpha'' \<mapsto> FloatAttr 0))
      else if P1 sc d \<and> HasAttr d ''use_cudnn'' then (op_attrs d)(''use_cudnn'' \<mapsto> BoolAttr True)
      else op_attrs d)(''data_format'' \<mapsto> StringAttr ''NHWC'')"
    and "op_inputs d' = op_inputs d"
proof -
  from assms obtain c where c: "CutlassIsValid uc d = Inr c"
    by (auto simp: commit_attrs_def split: sum.splits)
  note p2 = CutlassIsValid_P2 [OF c]
  show "op_attrs d' =
     (if P2 uc d then
        (if HasAttr d ''fuse_alpha'' then op_attrs d else (op_attrs d)(''fuse_alpha'' \<mapsto> FloatAttr 0))
      else if P1 sc d \<and> HasAttr d ''use_cudnn'' then (op_attrs d)(''use_cudnn'' \<mapsto> BoolAttr True)
      else op_attrs d)(''data_format'' \<mapsto> StringAttr ''NHWC'')"
  proof (cases c)
    case True
    with assms c p2 show ?thesis
      by (auto simp: commit_attrs_def SetAttr_def)
  next
    case False
    with assms c obtain c' where c': "cuDNNIsValid sc d = Inr c'"
      by (auto simp: commit_attrs_def split: sum.splits)
    from assms c False c' p2 cuDNNIsValid_P1 [OF c'] show ?thesis
      by (auto simp: commit_attrs_def SetAttr_def)
  qed
  from assms show "op_inputs d' = op_inputs d"
    by (auto simp: commit_attrs_def SetAttr_def split: sum.splits bool.splits if_splits)
qed

text \<open>The four stages of the body of the third loop for a valid operator.\<close>

lemma commit_op_valid:
  assumes "commit_op uc valid bd s n = Inr s'" and "n \<in> valid"
  shows "\<exists>d d1 fs s2 s3.
           Op (nodes s n) = Inr d \<and> commit_attrs uc (tensors s) d = Inr d1 \<and>
           Input d1 ''Filter'' = Inr fs \<and>
           transfer_weights (set_op_desc s n d1) n fs = Inr s2 \<and>
           transfer_outputs s2 (outputs (nodes s2 n)) = Inr s3 \<and>
           transfer_inputs s3 n bd (inputs (nodes s3 n)) = Inr s'"
  using assms by (auto simp: commit_op_def Let_def split: sum.splits)

lemma commit_op_invalid:
  assumes "commit_op uc valid bd s n = Inr s'" and "n \<notin> valid"
  shows "IsOp (nodes s n) \<and> restore_inputs s n bd (inputs (nodes s n)) = Inr s'"
  using assms by (auto simp: commit_op_def IsOp_iff_Op split: sum.splits)

lemma set_op_desc_fields:
  "node_count (set_op_desc s n d) = node_count s"
  "cache (set_op_desc s n d) = cache s"
  "tensors (set_op_desc s n d) = tensors s"
  "vars_shape_nhwc (set_op_desc s n d) = vars_shape_nhwc s"
  "insert_calls (set_op_desc s n d) = insert_calls s"
  "inputs (nodes (set_op_desc s n d) m) = inputs (nodes s m)"
  "outputs (nodes (set_op_desc s n d) m) = outputs (nodes s m)"
  "name (nodes (set_op_desc s n d) m) = name (nodes s m)"
  "m \<noteq> n \<Longrightarrow> nodes (set_op_desc s n d) m = nodes s m"
  "attrs_at (set_op_desc s n d) n = Some (op_attrs d)"
  by (simp_all add: set_op_desc_def attrs_at_def)

lemma set_op_desc_IsOp:
  "IsOp (nodes s n) \<Longrightarrow> IsOp (nodes (set_op_desc s n d) m) = IsOp (nodes s m)"
  by (simp add: set_op_desc_def IsOp_def)


lemma commit_op_valid_attrs:
  assumes run: "commit_op uc valid bd s n = Inr s'" and v: "n \<in> valid" and n: "n < node_count s"
    and d: "Op (nodes s n) = Inr d"
  shows "\<exists>d1. commit_attrs uc (tensors s) d = Inr d1 \<and> attrs_at s' n = Some (op_attrs d1)"
proof -
  from commit_op_valid [OF run v] d obtain d1 fs s2 s3
    where d1: "commit_attrs uc (tensors s) d = Inr d1"
      and tw: "transfer_weights (set_op_desc s n d1) n fs = Inr s2"
      and to: "transfer_outputs s2 (outputs (nodes s2 n)) = Inr s3"
      and ti: "transfer_inputs s3 n bd (inputs (nodes s3 n)) = Inr s'"
    by auto
  from transfer_weights_same_edges [OF tw] have e2: "same_edges (set_op_desc s n d1) s2" ..
  from transfer_outputs_same_edges [OF to] have e3: "same_edges s2 s3" ..
  from e2 e3 have "node_count s3 = node_count s"
    by (simp add: same_edges_def set_op_desc_fields)
  with n transfer_inputs_bodies [OF ti] have "attrs_at s' n = attrs_at s3 n"
    by simp
  also have "\<dots> = Some (op_attrs d1)"
    by (simp add: same_edges_attrs [OF e3] same_edges_attrs [OF e2] set_op_desc_fields)
  finally show ?thesis
    using d1 by simp
qed

text \<open>
  Claim C5, as amended. When a node of the final eligible set is committed: if P2 does
  not hold, P1 holds on the filter tensors as they are at that moment and \<open>use_cudnn\<close>
  is present, then \<open>use_cudnn\<close> is set to true; if P2 holds (also when P1 holds as well),
  \<open>use_cudnn\<close> stays false and \<open>fuse_alpha = 0.0\<close> is added when absent; and
  \<open>fuse_alpha\<close> is never added or changed on a node for which P2 does not hold.
\<close>

theorem commit_op_attrs:
  assumes "commit_op uc valid bd s n = Inr s'" and "n \<in> valid" and "n < node_count s"
    and "Op (nodes s n) = Inr d"
  shows "\<exists>a. attrs_at s' n = Some a \<and>
           (\<not> P2 uc d \<and> P1 (tensors s) d \<and> HasAttr d ''use_cudnn'' \<longrightarrow>
              a ''use_cudnn'' = Some (BoolAttr True)) \<and>
           (P2 uc d \<longrightarrow> a ''use_cudnn'' = Some (BoolAttr False)) \<and>
           (P2 uc d \<and> \<not> HasAttr d ''fuse_alpha'' \<longrightarrow> a ''fuse_alpha'' = Some (FloatAttr 0)) \<and>
           (a ''fuse_alpha'' \<noteq> op_attrs d ''fuse_alpha'' \<longrightarrow> P2 uc d)"
proof -
  from commit_op_valid_attrs [OF assms] obtain d1
    where d1: "commit_attrs uc (tensors s) d = Inr d1" and a: "attrs_at s' n = Some (op_attrs d1)"
    by auto
  from commit_attrs_attrs(1) [OF d1] a show ?thesis
    by (auto simp: P2_def HasAttr_def)
qed

subsection \<open>Runs of the whole pass\<close>

lemmas run_defs =
  final_valid_ops_def Op_def Var_def IsVar_def op_node_of_def var_node_of_def conv_desc_def nchw_attrs_def
  weight16_def target_op_type_def GetAttrIfExists_string_def GetAttrIfExists_bool_def Input_def
  cuDNNIsValid_def CutlassIsValid_def HasAttr_def aligned_iff init_state_def graph_of_def
  commit_op_def commit_attrs_def SetAttr_def set_op_desc_def set_var_desc_def TransDataLayout_def
  transfer_out_shape_def nchw_to_nhwc_shape_def InsertLayoutTransOp_def do_insert_def
  create_transfer_def rewire_def CreateOpNode_def CreateVarNode_def set_block_var_def BlockVar_def
  update_op_desc_def IR_NODE_LINK_TO_def IR_NODE_UNLINK_def RenameInput_def Let_def

lemma shared_weight_run:
  "\<exists>k g sc s. ApplyImpl False shared_weight_order (Some shared_weight_graph) (Some weight_scope)
       = Finished k g sc s \<and>
     body (graph_nodes g 2)
       = Variable \<lparr>var_name = ''w'', var_shape = [16, 3, 3, 16], var_dtype = 5, var_persistable = True\<rparr> \<and>
     body (graph_nodes g 5)
       = Variable \<lparr>var_name = ''w'', var_shape = [16, 16, 3, 3], var_dtype = 5, var_persistable = True\<rparr> \<and>
     sc ''w'' = Some \<lparr>dims = [16, 3, 3, 16], layout = kNHWC\<rparr> \<and>
     (\<exists>d. body (graph_nodes g 4) = Operation d \<and> op_attrs d ''data_format'' = Some (StringAttr ''NHWC''))"
  by (simp add: ApplyImpl_def shared_weight_order_def shared_weight_graph_def shared_weight_nodes_def
      weight_scope_def run_defs)

text \<open>
  Claim C4 fails as stated. Both convolutions are committed (their \<open>data_format\<close>
  becomes NHWC) and the buffer of \<open>w\<close> is converted once, but only the variable node of
  the first convolution has its shape permuted: for the second one the buffer is
  already NHWC and line 236 skips the shape edit as well, so node 5 keeps
  \<open>[16, 16, 3, 3]\<close>.
\<close>

theorem shared_weight_second_node_not_permuted:
  "shape_at (ApplyImpl False shared_weight_order (Some shared_weight_graph) (Some weight_scope)) 2
     = Some [16, 3, 3, 16] \<and>
   shape_at (ApplyImpl False shared_weight_order (Some shared_weight_graph) (Some weight_scope)) 5
     = Some [16, 16, 3, 3] \<and>
   tensor_at (ApplyImpl False shared_weight_order (Some shared_weight_graph) (Some weight_scope)) ''w''
     = Some \<lparr>dims = [16, 3, 3, 16], layout = kNHWC\<rparr> \<and>
   attr_at (ApplyImpl False shared_weight_order (Some shared_weight_graph) (Some weight_scope)) 4
     ''data_format'' = Some (StringAttr ''NHWC'')"
  using shared_weight_run by (auto simp: shape_at_def tensor_at_def attr_at_def)

lemma cutlass_run:
  "\<exists>k g sc s. ApplyImpl True single_order (Some cutlass_graph) (Some weight_scope)
       = Finished k g sc s \<and>
     (\<exists>d. body (graph_nodes g 0) = Operation d \<and>
          op_attrs d ''data_format'' = Some (StringAttr ''NHWC'') \<and>
          op_attrs d ''use_cudnn'' = Some (BoolAttr False) \<and>
          op_attrs d ''fuse_alpha'' = Some (FloatAttr 0))"
  by (simp add: ApplyImpl_def single_order_def cutlass_graph_def cutlass_desc_def one_conv_def
      weight_scope_def run_defs)

text \<open>
  Claim C5 fails as stated. A node with aligned filters, \<open>use_cudnn = false\<close> and
  \<open>use_cutlass\<close> set satisfies P1 and P2 and has \<open>use_cudnn\<close> present; it enters the
  eligible set and is committed, through the alternate-kernel branch, and its
  \<open>use_cudnn\<close> is still false after the pass.
\<close>

theorem both_predicates_use_cudnn_stays_false:
  "P1 weight_scope cutlass_desc \<and> P2 True cutlass_desc \<and> HasAttr cutlass_desc ''use_cudnn'' \<and>
   attr_at (ApplyImpl True single_order (Some cutlass_graph) (Some weight_scope)) 0 ''data_format''
     = Some (StringAttr ''NHWC'') \<and>
   attr_at (ApplyImpl True single_order (Some cutlass_graph) (Some weight_scope)) 0 ''use_cudnn''
     = Some (BoolAttr False)"
proof -
  have "P1 weight_scope cutlass_desc \<and> P2 True cutlass_desc \<and> HasAttr cutlass_desc ''use_cudnn''"
    by (simp add: P1_def P2_def HasAttr_def cutlass_desc_def conv_desc_def weight_scope_def
        weight16_def nchw_attrs_def)
  with cutlass_run show ?thesis
    by (auto simp: attr_at_def)
qed


lemma TransDataLayout_nchw_to_nhwc:
  "TransDataLayout kNCHW kNHWC t = Inr t' \<Longrightarrow>
   layout t' = kNHWC \<and> nchw_to_nhwc_shape (dims t) = Inr (dims t')"
  by (auto simp: TransDataLayout_def transfer_out_shape_def nchw_to_nhwc_shape_def Let_def
      split: if_splits)

text \<open>
  Claim C4, as amended. In the commit phase, for an eligible node (with distinct input
  edges) and each of its Filter inputs: if the filter's buffer is not yet in NHWC, the
  buffer is converted from NCHW to NHWC and every persistent input variable node of
  that node bearing the filter's name has its shape permuted
  \<open>[n, c, h, w] \<rightarrow> [n, h, w, c]\<close>; if the buffer is already in NHWC (for instance converted
  for an earlier node sharing the filter), the buffer is left alone and no variable node
  of that name is edited.
\<close>

theorem transfer_weights_effect:
  assumes "transfer_weights s n fs = Inr s'" and "distinct (inputs (nodes s n))"
    and "f \<in> set fs" and "tensors s f = Some t"
  shows "(layout t \<noteq> kNHWC \<longrightarrow>
           (\<exists>t'. TransDataLayout kNCHW kNHWC t = Inr t' \<and> layout t' = kNHWC \<and>
                 nchw_to_nhwc_shape (dims t) = Inr (dims t') \<and> tensors s' f = Some t') \<and>
           (\<forall>v \<in> set (inputs (nodes s n)). \<forall>vd.
               body (nodes s v) = Variable vd \<and> var_persistable vd \<and> var_name vd = f \<longrightarrow>
               (\<exists>sh. nchw_to_nhwc_shape (var_shape vd) = Inr sh \<and>
                     body (nodes s' v) = Variable (vd\<lparr>var_shape := sh\<rparr>)))) \<and>
         (layout t = kNHWC \<longrightarrow>
           tensors s' f = Some t \<and>
           (\<forall>v vd. body (nodes s v) = Variable vd \<and> var_name vd = f \<longrightarrow> nodes s' v = nodes s v))"
proof -
  note c = transfer_weights_cases [OF assms(1,2), of f]
  show ?thesis
  proof (cases "layout t = kNHWC")
    case True
    with c assms(4) show ?thesis by auto
  next
    case False
    with c assms(3,4) obtain t' where t': "TransDataLayout kNCHW kNHWC t = Inr t'"
      and ts: "tensors s' f = Some t'"
      and vs: "\<forall>v \<in> set (inputs (nodes s n)). \<forall>vd.
               body (nodes s v) = Variable vd \<and> var_persistable vd \<and> var_name vd = f \<longrightarrow>
               (\<exists>sh. nchw_to_nhwc_shape (var_shape vd) = Inr sh \<and>
                     body (nodes s' v) = Variable (vd\<lparr>var_shape := sh\<rparr>))"
      by blast
    from TransDataLayout_nchw_to_nhwc [OF t'] t' ts vs False show ?thesis
      by blast
  qed
qed

lemma shared_weight_first_op:
  "\<exists>s'. transfer_weights (init_state shared_weight_graph weight_scope) 0 [''w''] = Inr s'"
  by (simp add: shared_weight_graph_def shared_weight_nodes_def weight_scope_def run_defs)

theorem transfer_weights_effect_witness:
  "\<exists>s'. transfer_weights (init_state shared_weight_graph weight_scope) 0 [''w''] = Inr s' \<and>
        tensors s' ''w'' = Some \<lparr>dims = [16, 3, 3, 16], layout = kNHWC\<rparr> \<and>
        body (nodes s' 2) = Variable
          \<lparr>var_name = ''w'', var_shape = [16, 3, 3, 16], var_dtype = 5, var_persistable = True\<rparr>"
proof -
  let ?s = "init_state shared_weight_graph weight_scope"
  from shared_weight_first_op obtain s' where run: "transfer_weights ?s 0 [''w''] = Inr s'" ..
  have h: "distinct (inputs (nodes ?s 0))" "''w'' \<in> set [''w'']" "tensors ?s ''w'' = Some weight16"
    by (simp_all add: init_state_def shared_weight_graph_def shared_weight_nodes_def weight_scope_def
        op_node_of_def)
  have b: "body (nodes ?s 2) = Variable
          \<lparr>var_name = ''w'', var_shape = [16, 16, 3, 3], var_dtype = 5, var_persistable = True\<rparr>"
    "inputs (nodes ?s 0) = [1, 2]"
    by (simp_all add: init_state_def shared_weight_graph_def shared_weight_nodes_def
        var_node_of_def op_node_of_def)
  from transfer_weights_effect [OF run h] b
  have "tensors s' ''w'' = Some \<lparr>dims = [16, 3, 3, 16], layout = kNHWC\<rparr> \<and>
        body (nodes s' 2) = Variable
          \<lparr>var_name = ''w'', var_shape = [16, 3, 3, 16], var_dtype = 5, var_persistable = True\<rparr>"
    by (auto simp: weight16_def TransDataLayout_def transfer_out_shape_def nchw_to_nhwc_shape_def)
  with run show ?thesis by blast
qed

lemma cutlass_commit:
  "\<exists>s'. commit_op False {0} (Some 0) (init_state cutlass_graph weight_scope) 0 = Inr s'"
  by (simp add: cutlass_graph_def cutlass_desc_def one_conv_def weight_scope_def run_defs)

theorem commit_op_attrs_witness:
  "\<exists>s' a. commit_op False {0} (Some 0) (init_state cutlass_graph weight_scope) 0 = Inr s' \<and>
          attrs_at s' 0 = Some a \<and> a ''use_cudnn'' = Some (BoolAttr True) \<and> a ''fuse_alpha'' = None"
proof -
  let ?s = "init_state cutlass_graph weight_scope"
  from cutlass_commit obtain s' where run: "commit_op False {0} (Some 0) ?s 0 = Inr s'" ..
  have h: "(0::nat) \<in> {0}" "0 < node_count ?s" "Op (nodes ?s 0) = Inr cutlass_desc"
    by (simp_all add: init_state_def cutlass_graph_def Op_def op_node_of_def)
  have p: "\<not> P2 False cutlass_desc" "P1 (tensors ?s) cutlass_desc" "HasAttr cutlass_desc ''use_cudnn''"
    "op_attrs cutlass_desc ''fuse_alpha'' = None"
    by (simp_all add: P1_def P2_def HasAttr_def cutlass_desc_def conv_desc_def weight_scope_def
        weight16_def nchw_attrs_def init_state_def)
  from commit_op_attrs [OF run h] p run show ?thesis
    by auto
qed

subsection \<open>Operators sharing weights in a chain\<close>

lemma chain_collect:
  "collect_valid_ops True chain_nodes chain_scope [0, 1, 2] (no_weights_shared, {})
     = Inr (chain_weights_shared, {0, 1})"
  by (simp add: chain_nodes_def chain_scope_def chain_weights_shared_def no_weights_shared_def
      run_defs insert_commute)

lemma chain_filter:
  "filter_shared chain_nodes chain_weights_shared [0, 1, 2] {0, 1} = Inr {0}"
  by (auto simp: chain_nodes_def chain_weights_shared_def no_weights_shared_def run_defs)

lemma chain_run:
  "\<exists>k g sc s. ApplyImpl True chain_order (Some chain_graph) (Some chain_scope)
       = Finished k g sc s \<and> k = 1 \<and>
     (\<exists>d. body (graph_nodes g 0) = Operation d \<and> op_attrs d ''data_format'' = Some (StringAttr ''NHWC'')) \<and>
     (\<exists>d. body (graph_nodes g 1) = Operation d \<and> op_attrs d ''data_format'' = Some (StringAttr ''NCHW'')) \<and>
     sc ''f1'' = Some \<lparr>dims = [16, 3, 3, 16], layout = kNHWC\<rparr>"
  using chain_collect chain_filter
  by (simp add: ApplyImpl_def final_valid_ops_def chain_order_def chain_graph_def
        no_weights_shared_def)
     (simp add: chain_nodes_def chain_scope_def run_defs)

text \<open>
  Claim C2 does not hold of the code. Operators 0 and 1 are candidates, 2 is not. The
  filter loop visits 0 first, when its only group \<open>f1 = {0, 1}\<close> is still all valid;
  it then visits 1 and erases the group \<open>f2 = {1, 2}\<close>. Operator 0 is never revisited:
  the final set is \<open>{0}\<close>, the group of \<open>f1\<close> is mixed, and after the pass operator 0 runs
  in NHWC, operator 1 in NCHW, on a buffer of \<open>f1\<close> that has been converted to NHWC.
\<close>

theorem shared_weight_chain_mixed:
  "collect_valid_ops True chain_nodes chain_scope [0, 1, 2] (no_weights_shared, {})
     = Inr (chain_weights_shared, {0, 1}) \<and>
   filter_shared chain_nodes chain_weights_shared [0, 1, 2] {0, 1} = Inr {0} \<and>
   \<not> group_consistent chain_weights_shared {0} ''f1'' \<and>
   attr_at (ApplyImpl True chain_order (Some chain_graph) (Some chain_scope)) 0 ''data_format''
     = Some (StringAttr ''NHWC'') \<and>
   attr_at (ApplyImpl True chain_order (Some chain_graph) (Some chain_scope)) 1 ''data_format''
     = Some (StringAttr ''NCHW'') \<and>
   tensor_at (ApplyImpl True chain_order (Some chain_graph) (Some chain_scope)) ''f1''
     = Some \<lparr>dims = [16, 3, 3, 16], layout = kNHWC\<rparr>"
proof -
  have "\<not> group_consistent chain_weights_shared {0} ''f1''"
    by (simp add: group_consistent_def chain_weights_shared_def)
  with chain_collect chain_filter chain_run show ?thesis
    by (auto simp: attr_at_def tensor_at_def)
qed

subsection \<open>One direction per producer\<close>

lemma commit_op_frame:
  assumes run: "commit_op uc valid bd s n = Inr s'" and ok: "cache_ok n0 s" and n: "n < n0"
    and ins: "\<forall>v \<in> set (inputs (nodes s n)). v < n0"
  shows "cache_ok n0 s'"
    and "\<And>m. m < n0 \<Longrightarrow> m \<noteq> n \<Longrightarrow> IsOp (nodes s m) \<Longrightarrow> nodes s' m = nodes s m"
    and "vars_shape_nhwc s \<subseteq> vars_shape_nhwc s'"
    and "vars_shape_nhwc s' \<subseteq> vars_shape_nhwc s \<union> set (outputs (nodes s n))"
    and "\<exists>new. insert_calls s' = insert_calls s @ new \<and>
           (\<forall>c \<in> set new. producer c \<in> set (inputs (nodes s n)) \<and>
              request_ok valid (vars_shape_nhwc s') c)"
proof -
  have "cache_ok n0 s' \<and>
        (\<forall>m. m < n0 \<longrightarrow> m \<noteq> n \<longrightarrow> IsOp (nodes s m) \<longrightarrow> nodes s' m = nodes s m) \<and>
        vars_shape_nhwc s \<subseteq> vars_shape_nhwc s' \<and>
        vars_shape_nhwc s' \<subseteq> vars_shape_nhwc s \<union> set (outputs (nodes s n)) \<and>
        (\<exists>new. insert_calls s' = insert_calls s @ new \<and>
           (\<forall>c \<in> set new. producer c \<in> set (inputs (nodes s n)) \<and>
              request_ok valid (vars_shape_nhwc s') c))"
  proof (cases "n \<in> valid")
    case False
    from commit_op_invalid [OF run False]
    have r: "restore_inputs s n bd (inputs (nodes s n)) = Inr s'" ..
    from restore_inputs_frame [OF r ok n ins] restore_inputs_bodies [OF r] False show ?thesis
      by (auto simp: request_ok_def direction_of_def)
  next
    case True
    from commit_op_valid [OF run True] obtain d d1 fs s2 s3
      where d: "Op (nodes s n) = Inr d"
        and tw: "transfer_weights (set_op_desc s n d1) n fs = Inr s2"
        and to: "transfer_outputs s2 (outputs (nodes s2 n)) = Inr s3"
        and ti: "transfer_inputs s3 n bd (inputs (nodes s3 n)) = Inr s'"
      by auto
    let ?s1 = "set_op_desc s n d1"
    from d have isop: "IsOp (nodes s n)"
      by (auto simp: IsOp_iff_Op)
    from transfer_weights_same_edges [OF tw]
    have e2: "same_edges ?s1 s2" and n2: "vars_shape_nhwc s2 = vars_shape_nhwc s"
      by (simp_all add: set_op_desc_fields)
    from transfer_outputs_same_edges [OF to]
    have e3: "same_edges s2 s3" and n3: "vars_shape_nhwc s2 \<subseteq> vars_shape_nhwc s3"
      "vars_shape_nhwc s3 \<subseteq> vars_shape_nhwc s2 \<union> set (outputs (nodes s2 n))"
      by simp_all
    have io: "inputs (nodes s3 m) = inputs (nodes s m)" "outputs (nodes s2 m) = outputs (nodes s m)"
      "insert_calls s3 = insert_calls s" for m
      using e2 e3 by (simp_all add: same_edges_def set_op_desc_fields)
    have ok1: "cache_ok n0 ?s1"
      using ok by (rule cache_ok_cong) (simp_all add: set_op_desc_fields set_op_desc_IsOp [OF isop])
    have ok3: "cache_ok n0 s3"
      using e2 e3 ok1 by (blast intro: cache_ok_same_edges)
    from ins have ins3: "\<forall>v \<in> set (inputs (nodes s3 n)). v < n0"
      by (simp add: io)
    note f = transfer_inputs_frame [OF ti ok3 n ins3]
    note b = transfer_inputs_bodies [OF ti]
    have keep: "nodes s' m = nodes s m" if m: "m < n0" "m \<noteq> n" "IsOp (nodes s m)" for m
    proof -
      from m have 1: "nodes ?s1 m = nodes s m"
        by (simp add: set_op_desc_fields)
      with m have 2: "nodes s2 m = nodes s m"
        using same_edges_op_node [OF e2, of m] by simp
      with m have 3: "nodes s3 m = nodes s m"
        using same_edges_op_node [OF e3, of m] by simp
      with f m show ?thesis by simp
    qed
    from b obtain new where new: "insert_calls s' = insert_calls s3 @ new"
      "\<forall>c \<in> set new. producer c \<in> set (inputs (nodes s3 n)) \<and>
          producer c \<notin> vars_shape_nhwc s3 \<and> consumer c = n \<and> direction_of c = (kNCHW, kNHWC)"
      and n': "vars_shape_nhwc s' = vars_shape_nhwc s3"
      by auto
    have "\<exists>new. insert_calls s' = insert_calls s @ new \<and>
           (\<forall>c \<in> set new. producer c \<in> set (inputs (nodes s n)) \<and>
              request_ok valid (vars_shape_nhwc s') c)"
      using new n' True by (intro exI [of _ new]) (auto simp: io request_ok_def direction_of_def)
    with f keep n2 n3 n' show ?thesis
      by (simp add: io)
  qed
  then show "cache_ok n0 s'"
    and "\<And>m. m < n0 \<Longrightarrow> m \<noteq> n \<Longrightarrow> IsOp (nodes s m) \<Longrightarrow> nodes s' m = nodes s m"
    and "vars_shape_nhwc s \<subseteq> vars_shape_nhwc s'"
    and "vars_shape_nhwc s' \<subseteq> vars_shape_nhwc s \<union> set (outputs (nodes s n))"
    and "\<exists>new. insert_calls s' = insert_calls s @ new \<and>
           (\<forall>c \<in> set new. producer c \<in> set (inputs (nodes s n)) \<and>
              request_ok valid (vars_shape_nhwc s') c)"
    by blast+
qed

lemma reads_before_writes_cong:
  "\<forall>m \<in> set ops. ns' m = ns m \<Longrightarrow> reads_before_writes ns' ops = reads_before_writes ns ops"
  by (induction ops) auto

lemma commit_loop_requests:
  assumes "commit_loop uc valid bd s ops = Inr s'"
    and "cache_ok n0 s"
    and "topological_order (nodes s) n0 ops"
    and "\<forall>m \<in> set ops. seen \<inter> set (outputs (nodes s m)) = {}"
    and "\<forall>c \<in> set (insert_calls s).
           request_ok valid (vars_shape_nhwc s) c \<and>
           (producer c \<in> vars_shape_nhwc s \<or> producer c \<in> seen)"
  shows "\<forall>c \<in> set (insert_calls s'). request_ok valid (vars_shape_nhwc s') c"
  using assms
proof (induction ops arbitrary: s seen)
  case Nil
  then show ?case by simp
next
  case (Cons n ops)
  from Cons.prems(1) obtain s1 where c: "commit_op uc valid bd s n = Inr s1"
    and r: "commit_loop uc valid bd s1 ops = Inr s'"
    by (auto split: sum.splits)
  from Cons.prems(3) have n: "n < n0" "IsOp (nodes s n)" "\<forall>v \<in> set (inputs (nodes s n)). v < n0"
    and d: "n \<notin> set ops" "distinct ops"
    and rest: "\<forall>m \<in> set ops. m < n0 \<and> IsOp (nodes s m) \<and> (\<forall>v \<in> set (inputs (nodes s m)). v < n0)"
    and rw: "\<forall>m' \<in> set ops. set (inputs (nodes s n)) \<inter> set (outputs (nodes s m')) = {}"
      "reads_before_writes (nodes s) ops"
    by (auto simp: topological_order_def)
  note f = commit_op_frame [OF c Cons.prems(2) n(1,3)]
  have same: "nodes s1 m = nodes s m" if "m \<in> set ops" for m
    using that f(2) [of m] rest d(1) by auto
  have t1: "topological_order (nodes s1) n0 ops"
    using d(2) rest rw(2) same reads_before_writes_cong [of ops "nodes s1" "nodes s"]
    by (simp add: topological_order_def)
  let ?seen = "seen \<union> set (inputs (nodes s n))"
  have seen1: "\<forall>m \<in> set ops. ?seen \<inter> set (outputs (nodes s1 m)) = {}"
    using Cons.prems(4) rw(1) same by auto
  from Cons.prems(4) have sn: "seen \<inter> set (outputs (nodes s n)) = {}"
    by simp
  from f(5) obtain new where new: "insert_calls s1 = insert_calls s @ new"
    "\<forall>c \<in> set new. producer c \<in> set (inputs (nodes s n)) \<and>
       request_ok valid (vars_shape_nhwc s1) c"
    by (auto simp: request_ok_def)
  have inv1: "request_ok valid (vars_shape_nhwc s1) c \<and>
      (producer c \<in> vars_shape_nhwc s1 \<or> producer c \<in> ?seen)"
    if c: "c \<in> set (insert_calls s1)" for c
  proof (cases "c \<in> set new")
    case True
    with new(2) show ?thesis by auto
  next
    case False
    with c new(1) have old: "c \<in> set (insert_calls s)" by simp
    with Cons.prems(5) have ok: "request_ok valid (vars_shape_nhwc s) c"
      and place: "producer c \<in> vars_shape_nhwc s \<or> producer c \<in> seen"
      by auto
    show ?thesis
    proof (cases "producer c \<in> vars_shape_nhwc s")
      case True
      with f(3) ok show ?thesis
        by (auto simp: request_ok_def)
    next
      case False
      with place have "producer c \<in> seen" by simp
      with sn f(4) False have "producer c \<notin> vars_shape_nhwc s1"
        by auto
      with ok False \<open>producer c \<in> seen\<close> show ?thesis
        by (auto simp: request_ok_def)
    qed
  qed
  from Cons.IH [OF r f(1) t1 seen1] inv1 show ?case
    by blast
qed

lemma ApplyImpl_Finished:
  assumes "ApplyImpl uc topo (Some g) (Some sc) = Finished k g' sc' s'"
  shows "\<exists>valid bd. final_valid_ops uc (graph_nodes g) sc (topo g) = Inr valid \<and> k = card valid \<and>
           commit_loop uc valid bd (init_state g sc) (topo g) = Inr s'"
  using assms
  by (auto simp: ApplyImpl_def Let_def simp del: commit_loop.simps
      split: if_splits list.splits sum.splits prod.splits)

lemma cache_ok_init: "cache_ok (graph_size g) (init_state g sc)"
  by (simp add: cache_ok_def init_state_def)

text \<open>
  Claim C8. In a run of the pass that completes, on operators in topological order, every
  call of conversion insertion for a producer recorded in \<open>vars_shape_nhwc\<close> asks for
  NHWC to NCHW and comes from a consumer outside the final set of valid operators, and
  every call for a producer not recorded there asks for NCHW to NHWC and comes from a
  valid consumer; so all calls for one producer, and with them all uses of its cache
  entry, have the same direction.
\<close>

theorem one_direction_per_producer:
  assumes "ApplyImpl uc topo (Some g) (Some sc) = Finished k g' sc' s'"
    and "topological_order (graph_nodes g) (graph_size g) (topo g)"
  shows "\<exists>valid. final_valid_ops uc (graph_nodes g) sc (topo g) = Inr valid \<and>
           (\<forall>c \<in> set (insert_calls s'). request_ok valid (vars_shape_nhwc s') c) \<and>
           (\<forall>c \<in> set (insert_calls s'). \<forall>c' \<in> set (insert_calls s').
               producer c = producer c' \<longrightarrow>
               src_layout c = src_layout c' \<and> dst_layout c = dst_layout c')"
proof -
  from ApplyImpl_Finished [OF assms(1)] obtain valid bd
    where v: "final_valid_ops uc (graph_nodes g) sc (topo g) = Inr valid"
      and run: "commit_loop uc valid bd (init_state g sc) (topo g) = Inr s'"
    by auto
  have t: "topological_order (nodes (init_state g sc)) (graph_size g) (topo g)"
    using assms(2) by (simp add: init_state_def)
  have ok: "\<forall>c \<in> set (insert_calls s'). request_ok valid (vars_shape_nhwc s') c"
    by (rule commit_loop_requests [OF run cache_ok_init t, of "{}"]) (simp_all add: init_state_def)
  have "src_layout c = src_layout c' \<and> dst_layout c = dst_layout c'"
    if "c \<in> set (insert_calls s')" "c' \<in> set (insert_calls s')" "producer c = producer c'"
    for c c'
    using ok [rule_format, OF that(1)] ok [rule_format, OF that(2)] that(3)
    by (auto simp: request_ok_def split: if_splits)
  with ok v show ?thesis
    by blast
qed

lemma conv_relu_run:
  "\<exists>k g' sc' s'. ApplyImpl False conv_relu_order (Some conv_relu_graph) (Some weight_scope)
       = Finished k g' sc' s' \<and>
     insert_calls s' =
       [\<lparr>producer = 1, consumer = 0, src_layout = kNCHW, dst_layout = kNHWC\<rparr>,
        \<lparr>producer = 3, consumer = 4, src_layout = kNHWC, dst_layout = kNCHW\<rparr>] \<and>
     vars_shape_nhwc s' = {3}"
  by (simp add: ApplyImpl_def conv_relu_order_def conv_relu_graph_def relu_desc_def one_conv_def
      weight_scope_def run_defs)

theorem one_direction_per_producer_witness:
  "topological_order (graph_nodes conv_relu_graph) (graph_size conv_relu_graph)
     (conv_relu_order conv_relu_graph) \<and>
   (\<exists>k g' sc' s'. ApplyImpl False conv_relu_order (Some conv_relu_graph) (Some weight_scope)
       = Finished k g' sc' s' \<and>
     insert_calls s' =
       [\<lparr>producer = 1, consumer = 0, src_layout = kNCHW, dst_layout = kNHWC\<rparr>,
        \<lparr>producer = 3, consumer = 4, src_layout = kNHWC, dst_layout = kNCHW\<rparr>] \<and>
     vars_shape_nhwc s' = {3} \<and>
     (\<forall>c \<in> set (insert_calls s'). request_ok {0} (vars_shape_nhwc s') c))"
proof -
  have t: "topological_order (graph_nodes conv_relu_graph) (graph_size conv_relu_graph)
     (conv_relu_order conv_relu_graph)"
    by (simp add: topological_order_def conv_relu_order_def conv_relu_graph_def one_conv_def
        op_node_of_def var_node_of_def IsOp_def)
  have v: "final_valid_ops False (graph_nodes conv_relu_graph) weight_scope
             (conv_relu_order conv_relu_graph) = Inr {0}"
    by (simp add: conv_relu_order_def conv_relu_graph_def relu_desc_def one_conv_def
        weight_scope_def run_defs)
  from conv_relu_run obtain k g' sc' s'
    where run: "ApplyImpl False conv_relu_order (Some conv_relu_graph) (Some weight_scope)
       = Finished k g' sc' s'"
      and c: "insert_calls s' =
       [\<lparr>producer = 1, consumer = 0, src_layout = kNCHW, dst_layout = kNHWC\<rparr>,
        \<lparr>producer = 3, consumer = 4, src_layout = kNHWC, dst_layout = kNCHW\<rparr>]"
        "vars_shape_nhwc s' = {3}"
    by blast
  from one_direction_per_producer [OF run t] v
  have "\<forall>c \<in> set (insert_calls s'). request_ok {0} (vars_shape_nhwc s') c"
    by auto
  with run c t show ?thesis
    by blast
qed

end
